theory Spec2Isabelle
  imports Main "HOL-Library.AList" "HOL-Library.Multiset" "HOL-Library.Sublist"
    "HOL-Library.Word"
begin

section \<open>Findings\<close>

text \<open>
  \<^verbatim>\<open>type ValidationErrorLevel int64\<close>: a level is a 64-bit integer, and the package
  names two of its values, \<^verbatim>\<open>Error\<close> (iota, 0) and \<^verbatim>\<open>Warning\<close> (1). A finding built
  without a \<^verbatim>\<open>Level\<close> field has the zero value, \<open>Error\<close>.
\<close>

type_synonym ValidationErrorLevel = "64 word"

definition Error :: ValidationErrorLevel where
  "Error = 0"

definition Warning :: ValidationErrorLevel where
  "Warning = 1"

record ValidationError =
  Level :: ValidationErrorLevel
  Message :: string

type_synonym ValidationErrors = "ValidationError list"

text \<open>\<^verbatim>\<open>AtLevel\<close>: the findings of the given level, in their order.\<close>

fun AtLevel :: "ValidationErrors \<Rightarrow> ValidationErrorLevel \<Rightarrow> ValidationErrors" where
  "AtLevel [] lvl = []"
| "AtLevel (err # v) lvl = (if Level err = lvl then err # AtLevel v lvl else AtLevel v lvl)"

section \<open>Strings and formatting\<close>

text \<open>The characters that a string literal cannot hold directly.\<close>

definition apos :: string where
  "apos = [CHR 0x27]"

definition dquote :: string where
  "dquote = [CHR 0x22]"

definition newline :: string where
  "newline = [CHR 0x0A]"

text \<open>\<^verbatim>\<open>'%s'\<close> in a format string: the operand between apostrophes.\<close>

definition quoted :: "string \<Rightarrow> string" where
  "quoted s = apos @ s @ apos"

text \<open>\<^verbatim>\<open>%d\<close>: decimal rendering of an integer.\<close>

fun showNat :: "nat \<Rightarrow> string" where
  "showNat n = (if n < 10 then [''0123456789'' ! n]
                else showNat (n div 10) @ [''0123456789'' ! (n mod 10)])"

declare showNat.simps [simp del]

definition showInt :: "int \<Rightarrow> string" where
  "showInt i = (if i < 0 then ''-'' @ showNat (nat (- i)) else showNat (nat i))"

text \<open>\<^verbatim>\<open>%s\<close> of a \<^verbatim>\<open>[]string\<close>: the elements between brackets, separated by spaces.\<close>

fun joinSpace :: "string list \<Rightarrow> string" where
  "joinSpace [] = []"
| "joinSpace [s] = s"
| "joinSpace (s # t # ss) = s @ '' '' @ joinSpace (t # ss)"

definition showStrings :: "string list \<Rightarrow> string" where
  "showStrings ss = ''['' @ joinSpace ss @ '']''"

text \<open>\<^verbatim>\<open>strings.ContainsAny\<close>: some character of \<open>chars\<close> occurs in \<open>s\<close>.\<close>

definition ContainsAny :: "string \<Rightarrow> string \<Rightarrow> bool" where
  "ContainsAny s chars = list_ex (\<lambda>c. c \<in> set chars) s"

text \<open>\<^verbatim>\<open>utility.StringSliceContains\<close>.\<close>

definition StringSliceContains :: "string list \<Rightarrow> string \<Rightarrow> bool" where
  "StringSliceContains strs item = (item \<in> set strs)"

definition unauthorizedCharacters :: string where
  "unauthorizedCharacters = ''|''"

section \<open>Go maps and their iteration order\<close>

text \<open>
  A Go map that the code ranges over is an association list with distinct keys:
  \<open>AList.update\<close> is the assignment \<^verbatim>\<open>m[k] = v\<close>, \<open>map_of\<close> the lookup. The order of
  \<^verbatim>\<open>for k, v := range m\<close> is not fixed by the language and may change from one loop to
  the next; each loop takes the order from outside, as a list of positions. \<open>permOf\<close>
  turns any such list into a permutation of the positions (positions out of range and
  repetitions are dropped, positions not named follow in increasing order), so every
  list is an order and every order is some list.
\<close>

definition permOf :: "nat list \<Rightarrow> nat \<Rightarrow> nat list" where
  "permOf sugg n =
     (let s = remdups (filter (\<lambda>i. i < n) sugg)
      in s @ filter (\<lambda>i. i \<notin> set s) [0..<n])"

definition rangeMap :: "nat list \<Rightarrow> ('k \<times> 'v) list \<Rightarrow> ('k \<times> 'v) list" where
  "rangeMap sugg m = map (\<lambda>i. m ! i) (permOf sugg (length m))"

section \<open>The project model\<close>

text \<open>
  The structs of the \<^verbatim>\<open>model\<close> package, with the fields the validator reads.
  \<^verbatim>\<open>YAMLCommandSet\<close> is modelled by the list its \<^verbatim>\<open>List()\<close> returns, a nil pointer by
  \<open>None\<close>.
\<close>

record TVPair =
  Variant :: string
  TaskName :: string

record TaskUnitDependency =
  dep_Name :: string
  dep_Variant :: string
  dep_Status :: string
  dep_PatchOptional :: bool

record PluginCommandConf =
  cmd_Function :: string
  cmd_Type :: string
  cmd_Command :: string

type_synonym YAMLCommandSet = "PluginCommandConf list"

record ProjectTask =
  task_Name :: string
  task_DependsOn :: "TaskUnitDependency list"
  task_Commands :: "PluginCommandConf list"

text \<open>
  The skip predicates \<^verbatim>\<open>SkipOnPatchBuild()\<close>, \<^verbatim>\<open>SkipOnNonPatchBuild()\<close> and
  \<^verbatim>\<open>SkipOnNonGitTagBuild()\<close> are methods of the task unit; the model keeps their values.
\<close>

record BuildVariantTaskUnit =
  bvtu_Name :: string
  bvtu_IsGroup :: bool
  bvtu_Variant :: string
  bvtu_DependsOn :: "TaskUnitDependency list"
  bvtu_Distros :: "string list"
  SkipOnPatchBuild :: bool
  SkipOnNonPatchBuild :: bool
  SkipOnNonGitTagBuild :: bool

record BuildVariant =
  bv_Name :: string
  bv_DisplayName :: string
  bv_RunOn :: "string list"
  bv_Tasks :: "BuildVariantTaskUnit list"

record TaskGroup =
  tg_Name :: string
  tg_Tasks :: "string list"
  tg_MaxHosts :: int

record Project =
  Identifier :: string
  BatchTime :: int
  CommandType :: string
  Tasks :: "ProjectTask list"
  BuildVariants :: "BuildVariant list"
  TaskGroups :: "TaskGroup list"
  Functions :: "(string \<times> YAMLCommandSet option) list"
  Pre :: "YAMLCommandSet option"
  Post :: "YAMLCommandSet option"
  Timeout :: "YAMLCommandSet option"

record Distro =
  distro_Id :: string
  distro_Aliases :: "string list"
  distro_ValidProjects :: "string list"

text \<open>
  Modelled from the spec: the sentinels and status strings are constants of packages
  that are not part of the sources. Section 6 gives \<^verbatim>\<open>AllStatuses\<close> as \<^verbatim>\<open>"*"\<close> and the
  status strings \<^verbatim>\<open>"success"\<close> and \<^verbatim>\<open>"failed"\<close>; \<^verbatim>\<open>verifyTaskRequirements\<close> prints
  \<^verbatim>\<open>AllDependencies\<close> as \<^verbatim>\<open>*\<close>.
\<close>

definition AllDependencies :: string where
  "AllDependencies = ''*''"

definition AllVariants :: string where
  "AllVariants = ''*''"




definition MaxInt32 :: int where
  "MaxInt32 = 2147483647"

section \<open>Checks on single fields\<close>

text \<open>
  \<^verbatim>\<open>ensureHasNecessaryProjectFields\<close>. \<^verbatim>\<open>evergreen.ValidCommandTypes\<close> is not part of the
  sources and is a parameter.
\<close>

definition ensureHasNecessaryProjectFields :: "string list \<Rightarrow> Project \<Rightarrow> ValidationErrors" where
  "ensureHasNecessaryProjectFields ValidCommandTypes project =
     (if BatchTime project < 0
      then [\<lparr>Level = Error,
              Message = ''project '' @ quoted (Identifier project) @
                '' must have a non-negative 'batchtime' set''\<rparr>]
      else []) @
     (if BatchTime project > MaxInt32
      then [\<lparr>Level = Warning,
              Message = ''project '' @ quoted (Identifier project) @
                '' field 'batchtime' should not exceed '' @ showInt MaxInt32 @ '')''\<rparr>]
      else []) @
     (if CommandType project \<noteq> [] \<and>
         \<not> StringSliceContains ValidCommandTypes (CommandType project)
      then [\<lparr>Level = Error,
              Message = ''project '' @ quoted (Identifier project) @
                '' contains an invalid command type: '' @ CommandType project\<rparr>]
      else [])"

text \<open>
  \<^verbatim>\<open>checkAllDependenciesSpec\<close>. The inner loop carries the findings and the
  \<^verbatim>\<open>coveredVariants\<close> map of the task; a missing key reads as \<^verbatim>\<open>false\<close>.
\<close>

definition allDependenciesMessage :: "Project \<Rightarrow> ProjectTask \<Rightarrow> string" where
  "allDependenciesMessage project task =
     ''task '' @ quoted (task_Name task) @ '' in project '' @ quoted (Identifier project) @
     '' contains the all dependencies ('' @ AllDependencies @ '')' '' @
     ''specification and other explicit dependencies or duplicate variants''"

fun allDependenciesLoop ::
  "Project \<Rightarrow> ProjectTask \<Rightarrow> TaskUnitDependency list \<Rightarrow> (string \<rightharpoonup> bool) \<Rightarrow> ValidationErrors"
where
  "allDependenciesLoop project task [] coveredVariants = []"
| "allDependenciesLoop project task (dependency # deps) coveredVariants =
     (if dep_Name dependency = AllDependencies
      then (if dep_Variant dependency = [] \<or>
               coveredVariants (dep_Variant dependency) = Some True
            then [\<lparr>Level = Error, Message = allDependenciesMessage project task\<rparr>]
            else []) @
           allDependenciesLoop project task deps
             (coveredVariants(dep_Variant dependency \<mapsto> True))
      else allDependenciesLoop project task deps coveredVariants)"

definition checkAllDependenciesSpec :: "Project \<Rightarrow> ValidationErrors" where
  "checkAllDependenciesSpec project =
     concat (map (\<lambda>task.
       if length (task_DependsOn task) > 1
       then allDependenciesLoop project task (task_DependsOn task) Map.empty
       else []) (Tasks project))"

text \<open>
  \<^verbatim>\<open>checkTaskGroups\<close>. The first loop carries the findings and the map
  \<^verbatim>\<open>tasksInTaskGroups\<close>; a group of exactly one task leaves the loop body early
  (\<^verbatim>\<open>continue\<close>). The second loop ranges over the map, in the order \<open>ord\<close>.
  \<^verbatim>\<open>GetSpecForTask\<close> is a method of the project model that is not part of the sources
  and is a parameter.
\<close>

definition maxHostsLowMessage :: "TaskGroup \<Rightarrow> string" where
  "maxHostsLowMessage tg =
     ''task group '' @ tg_Name tg @ '' has number of hosts '' @ showInt (tg_MaxHosts tg) @
     '' less than 1''"

definition maxHostsHighMessage :: "TaskGroup \<Rightarrow> string" where
  "maxHostsHighMessage tg =
     ''task group '' @ tg_Name tg @ '' has max number of hosts '' @
     showInt (tg_MaxHosts tg) @ '' greater than half the number of tasks '' @
     showInt (int (length (tg_Tasks tg)))"

definition checkTaskGroupsStep ::
  "ValidationErrors \<times> (string \<times> string) list \<Rightarrow> TaskGroup \<Rightarrow>
   ValidationErrors \<times> (string \<times> string) list"
where
  "checkTaskGroupsStep acc tg =
     (let errs = fst acc;
          tasksInTaskGroups = snd acc;
          errs1 = (if tg_MaxHosts tg < 1
                   then errs @ [\<lparr>Level = Warning, Message = maxHostsLowMessage tg\<rparr>]
                   else errs)
      in if length (tg_Tasks tg) = 1 then (errs1, tasksInTaskGroups)
         else ((if tg_MaxHosts tg > int (length (tg_Tasks tg)) div 2
                then errs1 @ [\<lparr>Level = Warning, Message = maxHostsHighMessage tg\<rparr>]
                else errs1),
               foldl (\<lambda>m t. AList.update t (tg_Name tg) m) tasksInTaskGroups (tg_Tasks tg)))"

definition taskGroupDependencyFinding ::
  "(Project \<Rightarrow> string \<Rightarrow> ProjectTask) \<Rightarrow> Project \<Rightarrow> string \<times> string \<Rightarrow> ValidationErrors"
where
  "taskGroupDependencyFinding GetSpecForTask p entry =
     (let t = fst entry; tg = snd entry; spec = GetSpecForTask p t
      in if length (task_DependsOn spec) > 0
         then [\<lparr>Level = Warning,
                 Message = ''task '' @ t @ '' in task group '' @ tg @
                   '' has a dependency on another task ('' @
                   showStrings (map dep_Name (task_DependsOn spec)) @
                   ''), which can cause task group tasks to be scheduled out of order''\<rparr>]
         else [])"

definition checkTaskGroups ::
  "(Project \<Rightarrow> string \<Rightarrow> ProjectTask) \<Rightarrow> nat list \<Rightarrow> Project \<Rightarrow> ValidationErrors"
where
  "checkTaskGroups GetSpecForTask ord p =
     (let acc = foldl checkTaskGroupsStep ([], []) (TaskGroups p)
      in fst acc @
         concat (map (taskGroupDependencyFinding GetSpecForTask p) (rangeMap ord (snd acc))))"

text \<open>
  \<^verbatim>\<open>validateBVNames\<close>. The loop carries the findings, the set \<^verbatim>\<open>buildVariantNames\<close>
  and the counters \<^verbatim>\<open>displayNames\<close>; the function returns before the loop over
  \<^verbatim>\<open>displayNames\<close> when the first loop found anything.
\<close>

definition validateBVNamesStep ::
  "Project \<Rightarrow> ValidationErrors \<times> (string \<rightharpoonup> bool) \<times> (string \<times> int) list \<Rightarrow> BuildVariant \<Rightarrow>
   ValidationErrors \<times> (string \<rightharpoonup> bool) \<times> (string \<times> int) list"
where
  "validateBVNamesStep project acc buildVariant =
     (let errs = fst acc;
          buildVariantNames = fst (snd acc);
          displayNames = snd (snd acc);
          errs1 = (if buildVariantNames (bv_Name buildVariant) \<noteq> None
                   then errs @ [\<lparr>Level = Error,
                     Message = ''project '' @ quoted (Identifier project) @
                       '' buildvariant '' @ quoted (bv_Name buildVariant) @
                       '' already exists''\<rparr>]
                   else errs);
          dispName = (if bv_DisplayName buildVariant = [] then bv_Name buildVariant
                      else bv_DisplayName buildVariant);
          count = (case map_of displayNames dispName of None \<Rightarrow> 0 | Some c \<Rightarrow> c);
          errs2 = (if ContainsAny (bv_Name buildVariant) unauthorizedCharacters
                   then errs1 @ [\<lparr>Level = Error,
                     Message = ''buildvariant name '' @ bv_Name buildVariant @
                       '' contains unauthorized characters ('' @ unauthorizedCharacters @
                       '')''\<rparr>]
                   else errs1)
      in (errs2, buildVariantNames(bv_Name buildVariant \<mapsto> True),
          AList.update dispName (count + 1) displayNames))"

definition displayNameFinding :: "string \<times> int \<Rightarrow> ValidationErrors" where
  "displayNameFinding entry =
     (if snd entry > 1
      then [\<lparr>Level = Warning,
              Message = showInt (snd entry) @
                '' build variants share the same display name: '' @ quoted (fst entry)\<rparr>]
      else [])"

definition validateBVNames :: "nat list \<Rightarrow> Project \<Rightarrow> ValidationErrors" where
  "validateBVNames ord project =
     (let acc = foldl (validateBVNamesStep project) ([], Map.empty, []) (BuildVariants project);
          errs = fst acc
      in if length errs > 0 then errs
         else errs @ concat (map displayNameFinding (rangeMap ord (snd (snd acc)))))"

section \<open>Plugin commands\<close>

text \<open>
  \<^verbatim>\<open>validateCommands\<close>. \<^verbatim>\<open>command.Render\<close> belongs to the command registry: \<open>Render\<close>
  gives the text of its error, or \<open>None\<close>.
\<close>

definition validateCommand ::
  "(PluginCommandConf \<Rightarrow> (string \<times> YAMLCommandSet option) list \<Rightarrow> string option) \<Rightarrow>
   string list \<Rightarrow> string \<Rightarrow> Project \<Rightarrow> PluginCommandConf \<Rightarrow> ValidationErrors"
where
  "validateCommand Render ValidCommandTypes section project cmd =
     (let commandName0 = quoted (cmd_Command cmd) @ '' command'';
          err = Render cmd (Functions project);
          commandName = (if err \<noteq> None \<and> cmd_Function cmd \<noteq> []
                         then quoted (cmd_Function cmd) @ '' function''
                         else commandName0)
      in (case err of
            None \<Rightarrow> []
          | Some e \<Rightarrow> [\<lparr>Level = Error,
                         Message = section @ '' section in '' @ commandName @ '': '' @ e\<rparr>]) @
         (if cmd_Type cmd \<noteq> [] \<and> \<not> StringSliceContains ValidCommandTypes (cmd_Type cmd)
          then [\<lparr>Level = Error,
                  Message = section @ '' section in '' @ quoted commandName @
                    '': invalid command type: '' @ quoted (cmd_Type cmd)\<rparr>]
          else []))"

definition validateCommands ::
  "(PluginCommandConf \<Rightarrow> (string \<times> YAMLCommandSet option) list \<Rightarrow> string option) \<Rightarrow>
   string list \<Rightarrow> string \<Rightarrow> Project \<Rightarrow> PluginCommandConf list \<Rightarrow> ValidationErrors"
where
  "validateCommands Render ValidCommandTypes section project commands =
     concat (map (validateCommand Render ValidCommandTypes section project) commands)"

text \<open>
  \<^verbatim>\<open>validatePluginCommands\<close>. \<^verbatim>\<open>project.Functions\<close> is a Go map from the function's
  name to its commands; the loop ranges over it in the order \<open>ord\<close> and carries the map
  \<^verbatim>\<open>seen\<close>, which an empty function does not enter (\<^verbatim>\<open>continue\<close>).
\<close>

definition duplicateDefinitionMessage :: "Project \<Rightarrow> string \<Rightarrow> string" where
  "duplicateDefinitionMessage project funcName =
     ''project '' @ quoted (Identifier project) @ '' has duplicate definition of '' @
     dquote @ funcName @ dquote"

fun pluginFunctionsLoop ::
  "(PluginCommandConf \<Rightarrow> (string \<times> YAMLCommandSet option) list \<Rightarrow> string option) \<Rightarrow>
   string list \<Rightarrow> Project \<Rightarrow> (string \<times> YAMLCommandSet option) list \<Rightarrow> (string \<rightharpoonup> bool) \<Rightarrow>
   ValidationErrors"
where
  "pluginFunctionsLoop Render ValidCommandTypes project [] seen = []"
| "pluginFunctionsLoop Render ValidCommandTypes project ((funcName, commands) # rest) seen =
     (if (case commands of None \<Rightarrow> True | Some cs \<Rightarrow> length cs = 0)
      then \<lparr>Level = Error,
             Message = quoted (Identifier project) @ '' project's '' @ quoted funcName @
               '' function contains no commands''\<rparr> #
           pluginFunctionsLoop Render ValidCommandTypes project rest seen
      else
        map (\<lambda>err. \<lparr>Level = Error,
               Message = quoted (Identifier project) @ '' project's '' @ quoted funcName @
                 '' definition: '' @ Message err\<rparr>)
          (validateCommands Render ValidCommandTypes ''functions'' project (the commands)) @
        concat (map (\<lambda>c. if cmd_Function c \<noteq> []
               then [\<lparr>Level = Error,
                       Message = ''can not reference a function within a function: '' @
                         quoted (cmd_Function c) @ '' referenced within '' @
                         quoted funcName\<rparr>]
               else []) (the commands)) @
        (if seen funcName = Some True
         then [\<lparr>Level = Error, Message = duplicateDefinitionMessage project funcName\<rparr>]
         else []) @
        pluginFunctionsLoop Render ValidCommandTypes project rest (seen(funcName \<mapsto> True)))"

definition validatePluginCommands ::
  "(PluginCommandConf \<Rightarrow> (string \<times> YAMLCommandSet option) list \<Rightarrow> string option) \<Rightarrow>
   string list \<Rightarrow> nat list \<Rightarrow> Project \<Rightarrow> ValidationErrors"
where
  "validatePluginCommands Render ValidCommandTypes ord project =
     pluginFunctionsLoop Render ValidCommandTypes project
       (rangeMap ord (Functions project)) Map.empty @
     (case Pre project of None \<Rightarrow> []
      | Some cs \<Rightarrow> validateCommands Render ValidCommandTypes ''pre'' project cs) @
     (case Post project of None \<Rightarrow> []
      | Some cs \<Rightarrow> validateCommands Render ValidCommandTypes ''post'' project cs) @
     (case Timeout project of None \<Rightarrow> []
      | Some cs \<Rightarrow> validateCommands Render ValidCommandTypes ''timeout'' project cs) @
     concat (map (\<lambda>task. validateCommands Render ValidCommandTypes ''tasks'' project
                    (task_Commands task)) (Tasks project))"

section \<open>The distro catalog and the entry point\<close>

text \<open>
  \<^verbatim>\<open>getDistrosForProject\<close>. \<^verbatim>\<open>distro.Find(distro.All)\<close> is a query of the database;
  its outcome \<open>found\<close> is the error's text or the distros.
\<close>

definition addAliases :: "string list \<Rightarrow> string list \<Rightarrow> string list" where
  "addAliases aliases new =
     foldl (\<lambda>as alias. if \<not> StringSliceContains as alias then as @ [alias] else as) aliases new"

definition getDistrosStep ::
  "string \<Rightarrow> string list \<times> string list \<Rightarrow> Distro \<Rightarrow> string list \<times> string list"
where
  "getDistrosStep projectID acc d =
     (let ids = fst acc; aliases = snd acc
      in if projectID \<noteq> [] \<and> length (distro_ValidProjects d) > 0
         then (if StringSliceContains (distro_ValidProjects d) projectID
               then (ids @ [distro_Id d], addAliases aliases (distro_Aliases d))
               else (ids, aliases))
         else (ids @ [distro_Id d], addAliases aliases (distro_Aliases d)))"

definition getDistrosForProject ::
  "string + Distro list \<Rightarrow> string \<Rightarrow> string + (string list \<times> string list)"
where
  "getDistrosForProject found projectID =
     (case found of
        Inl err \<Rightarrow> Inl err
      | Inr distros \<Rightarrow> Inr (foldl (getDistrosStep projectID) ([], []) distros))"

text \<open>
  \<^verbatim>\<open>ensureReferentialIntegrity\<close>. The two findings about distros append a name to the
  format string and pass one operand less than the format has verbs, so their text
  depends on how \<^verbatim>\<open>fmt.Sprintf\<close> reads that name: \<^verbatim>\<open>fmt.Sprintf\<close>, of the standard
  library, is the parameter \<open>Sprintf\<close> for these two calls, given the format and the
  operands as the code passes them. The finding about a task without a name passes the
  project before the build variant.
\<close>

definition distroKnown :: "string list \<Rightarrow> string list \<Rightarrow> string \<Rightarrow> bool" where
  "distroKnown distroIDs distroAliases d =
     (StringSliceContains distroIDs d \<or> StringSliceContains distroAliases d)"

definition referentialTask ::
  "(string \<Rightarrow> string list \<Rightarrow> string) \<Rightarrow> Project \<Rightarrow> string list \<Rightarrow> string list \<Rightarrow>
   string list \<Rightarrow> BuildVariant \<Rightarrow> BuildVariantTaskUnit \<Rightarrow> ValidationErrors"
where
  "referentialTask Sprintf project allTaskNames distroIDs distroAliases buildVariant task =
     (if bvtu_Name task \<notin> set allTaskNames
      then (if bvtu_Name task = []
            then [\<lparr>Level = Error,
                    Message = ''tasks for buildvariant '' @ quoted (Identifier project) @
                      '' in project '' @ quoted (bv_Name buildVariant) @
                      '' must each have a name field''\<rparr>]
            else [\<lparr>Level = Error,
                    Message = ''buildvariant '' @ quoted (bv_Name buildVariant) @
                      '' in project '' @ quoted (Identifier project) @
                      '' references a non-existent task '' @ quoted (bvtu_Name task)\<rparr>])
      else []) @
     concat (map (\<lambda>d.
       if \<not> distroKnown distroIDs distroAliases d
       then [\<lparr>Level = Warning,
               Message = Sprintf (''task '%s' in buildvariant '%s' in project '%s' '' @
                   ''references a nonexistent distro '%s'.'' @ newline @ bvtu_Name task)
                 [bv_Name buildVariant, Identifier project, d]\<rparr>]
       else []) (bvtu_Distros task))"

definition referentialBV ::
  "(string \<Rightarrow> string list \<Rightarrow> string) \<Rightarrow> Project \<Rightarrow> string list \<Rightarrow> string list \<Rightarrow>
   string list \<Rightarrow> BuildVariant \<Rightarrow> ValidationErrors"
where
  "referentialBV Sprintf project allTaskNames distroIDs distroAliases buildVariant =
     concat (map
       (referentialTask Sprintf project allTaskNames distroIDs distroAliases buildVariant)
       (bv_Tasks buildVariant)) @
     concat (map (\<lambda>d.
       if \<not> distroKnown distroIDs distroAliases d
       then [\<lparr>Level = Warning,
               Message = Sprintf (''buildvariant '%s' in project '%s' '' @
                   ''references a nonexistent distro '%s'.'' @ newline @ bv_Name buildVariant)
                 [Identifier project, d]\<rparr>]
       else []) (bv_RunOn buildVariant))"

definition ensureReferentialIntegrity ::
  "(string \<Rightarrow> string list \<Rightarrow> string) \<Rightarrow> Project \<Rightarrow> string list \<Rightarrow> string list \<Rightarrow>
   ValidationErrors"
where
  "ensureReferentialIntegrity Sprintf project distroIDs distroAliases =
     (let allTaskNames = map task_Name (Tasks project) @ map tg_Name (TaskGroups project)
      in concat (map (referentialBV Sprintf project allTaskNames distroIDs distroAliases)
           (BuildVariants project)))"

text \<open>
  \<^verbatim>\<open>CheckProjectSyntax\<close>. \<^verbatim>\<open>projectSyntaxValidators\<close> is a package variable holding the
  list of checks; the entry point runs them in order, asks for the distros and calls
  \<^verbatim>\<open>ensureReferentialIntegrity\<close> with what it got (nil slices after a failure).
\<close>

definition cantGetDistros :: ValidationError where
  "cantGetDistros = \<lparr>Level = Error, Message = ''can't get distros from database''\<rparr>"

definition CheckProjectSyntax ::
  "(string \<Rightarrow> string list \<Rightarrow> string) \<Rightarrow> (Project \<Rightarrow> ValidationErrors) list \<Rightarrow>
   string + Distro list \<Rightarrow> Project \<Rightarrow> ValidationErrors"
where
  "CheckProjectSyntax Sprintf projectSyntaxValidators found project =
     (let validationErrs = concat (map (\<lambda>validator. validator project) projectSyntaxValidators)
      in case getDistrosForProject found (Identifier project) of
           Inl err \<Rightarrow>
             validationErrs @ [cantGetDistros] @
             ensureReferentialIntegrity Sprintf project [] []
         | Inr (distroIDs, distroAliases) \<Rightarrow>
             validationErrs @
             ensureReferentialIntegrity Sprintf project distroIDs distroAliases)"

section \<open>The dependency graph\<close>

text \<open>
  \<^verbatim>\<open>CreateTasksFromGroup\<close>, \<^verbatim>\<open>Populate\<close>, \<^verbatim>\<open>GetSpecForTask\<close> and the \<^verbatim>\<open>String\<close> method
  of \<^verbatim>\<open>TVPair\<close> belong to the \<^verbatim>\<open>model\<close> package, which is not part of the sources; the
  functions that call them take them as parameters.
\<close>

record ModelMethods =
  CreateTasksFromGroup :: "BuildVariantTaskUnit \<Rightarrow> Project \<Rightarrow> BuildVariantTaskUnit list"
  Populate :: "BuildVariantTaskUnit \<Rightarrow> ProjectTask \<Rightarrow> BuildVariantTaskUnit"
  GetSpecForTask :: "Project \<Rightarrow> string \<Rightarrow> ProjectTask"
  TVPairString :: "TVPair \<Rightarrow> string"

type_synonym TaskUnits = "(TVPair \<times> BuildVariantTaskUnit) list"

text \<open>\<^verbatim>\<open>tvToTaskUnit\<close>: the map from task-variant pairs to task units.\<close>

definition tasksToAdd :: "ModelMethods \<Rightarrow> Project \<Rightarrow> BuildVariant \<Rightarrow> BuildVariantTaskUnit list" where
  "tasksToAdd M p bv =
     concat (map (\<lambda>t. if bvtu_Name t \<in> set (map tg_Name (TaskGroups p))
                       then CreateTasksFromGroup M t p else [t]) (bv_Tasks bv))"

definition addTaskUnit ::
  "ModelMethods \<Rightarrow> Project \<Rightarrow> BuildVariant \<Rightarrow> TaskUnits \<Rightarrow> BuildVariantTaskUnit \<Rightarrow> TaskUnits"
where
  "addTaskUnit M p bv tasksByNameAndVariant t0 =
     (let t = (Populate M t0 (GetSpecForTask M p (bvtu_Name t0)))\<lparr>bvtu_Variant := bv_Name bv\<rparr>;
          node = \<lparr>Variant = bv_Name bv, TaskName = bvtu_Name t\<rparr>
      in AList.update node t tasksByNameAndVariant)"

definition tvToTaskUnit :: "ModelMethods \<Rightarrow> Project \<Rightarrow> TaskUnits" where
  "tvToTaskUnit M p =
     foldl (\<lambda>tasksByNameAndVariant bv.
              foldl (addTaskUnit M p bv) tasksByNameAndVariant (tasksToAdd M p bv))
       [] (BuildVariants p)"

text \<open>
  \<^verbatim>\<open>dependenciesForTaskUnit\<close>. \<open>depTargets\<close> is the body of the loop for one dependency:
  the pairs appended to \<^verbatim>\<open>depsToNodes[dep]\<close>. A dependency that appends nothing leaves
  no key in the map; two equal dependencies share one key.
\<close>

definition depTargets :: "TVPair \<Rightarrow> TaskUnitDependency \<Rightarrow> TVPair list \<Rightarrow> TVPair list" where
  "depTargets tv dep allTVs =
     (if dep_Variant dep \<noteq> AllVariants
      then (let depTV = \<lparr>Variant = (if dep_Variant dep = [] then Variant tv
                                     else dep_Variant dep),
                         TaskName = dep_Name dep\<rparr>
            in if TaskName depTV = AllDependencies
               then filter (\<lambda>currTV. TaskName currTV \<noteq> TaskName tv \<and>
                                      Variant currTV = Variant depTV) allTVs
               else [depTV])
      else if dep_Name dep \<noteq> AllDependencies
           then filter (\<lambda>currTV. TaskName currTV = dep_Name dep \<and> currTV \<noteq> tv) allTVs
           else filter (\<lambda>currTV. currTV \<noteq> tv) allTVs)"

definition addDependency ::
  "TVPair \<Rightarrow> TVPair list \<Rightarrow> (TaskUnitDependency \<times> TVPair list) list \<Rightarrow> TaskUnitDependency \<Rightarrow>
   (TaskUnitDependency \<times> TVPair list) list"
where
  "addDependency tv allTVs depsToNodes dep =
     (let new = depTargets tv dep allTVs;
          old = (case map_of depsToNodes dep of None \<Rightarrow> [] | Some ns \<Rightarrow> ns)
      in if new = [] then depsToNodes else AList.update dep (old @ new) depsToNodes)"

definition dependenciesForTaskUnit ::
  "TVPair \<Rightarrow> BuildVariantTaskUnit \<Rightarrow> TVPair list \<Rightarrow> (TaskUnitDependency \<times> TVPair list) list"
where
  "dependenciesForTaskUnit tv taskUnit allTVs =
     foldl (addDependency tv allTVs) [] (bvtu_DependsOn taskUnit)"

text \<open>The zero value of a task unit, which a Go map returns for a missing key.\<close>

definition zeroTaskUnit :: BuildVariantTaskUnit where
  "zeroTaskUnit = \<lparr>bvtu_Name = [], bvtu_IsGroup = False, bvtu_Variant = [],
     bvtu_DependsOn = [], bvtu_Distros = [], SkipOnPatchBuild = False,
     SkipOnNonPatchBuild = False, SkipOnNonGitTagBuild = False\<rparr>"

definition taskUnitOf :: "TaskUnits \<Rightarrow> TVPair \<Rightarrow> BuildVariantTaskUnit" where
  "taskUnitOf tvs node = (case map_of tvs node of None \<Rightarrow> zeroTaskUnit | Some t \<Rightarrow> t)"

text \<open>
  \<^verbatim>\<open>dependencyCycleExists\<close>. The state is the shared map \<^verbatim>\<open>visited\<close> and the number of
  map loops run so far, which selects the order \<open>orc t\<close> of the next one. The two
  nested loops visit the nodes of all entries of \<^verbatim>\<open>depsToNodes\<close> one after the other:
  \<open>cycleLoop\<close> runs over their concatenation and stops at the first error. The depth of
  the recursion is bounded by \<open>fuel\<close>; \<open>None\<close> means that the bound was reached.
\<close>

type_synonym SearchState = "(TVPair \<rightharpoonup> bool) \<times> nat"

definition notPresentError :: "ModelMethods \<Rightarrow> TVPair \<Rightarrow> string" where
  "notPresentError M node =
     ''dependency '' @ TVPairString M node @ '' is not present in the project config''"

definition cycleError :: "ModelMethods \<Rightarrow> TVPair \<Rightarrow> string" where
  "cycleError M node =
     ''dependency '' @ TVPairString M node @ '' is part of a dependency cycle''"

definition nodesInOrder :: "nat list \<Rightarrow> (TaskUnitDependency \<times> TVPair list) list \<Rightarrow> TVPair list" where
  "nodesInOrder ord depsToNodes = concat (map snd (rangeMap ord depsToNodes))"

fun dependencyCycleExists ::
  "ModelMethods \<Rightarrow> (nat \<Rightarrow> nat list) \<Rightarrow> TVPair list \<Rightarrow> TaskUnits \<Rightarrow> nat \<Rightarrow> TVPair \<Rightarrow>
   SearchState \<Rightarrow> (string option \<times> SearchState) option"
and cycleLoop ::
  "ModelMethods \<Rightarrow> (nat \<Rightarrow> nat list) \<Rightarrow> TVPair list \<Rightarrow> TaskUnits \<Rightarrow> nat \<Rightarrow> TVPair list \<Rightarrow>
   SearchState \<Rightarrow> (string option \<times> SearchState) option"
where
  "dependencyCycleExists M orc allNodes tasksByNameAndVariant 0 node st = None"
| "dependencyCycleExists M orc allNodes tasksByNameAndVariant (Suc fuel) node st =
     (case fst st node of
        None \<Rightarrow> Some (Some (notPresentError M node), st)
      | Some v \<Rightarrow>
          if v then Some (Some (cycleError M node), st)
          else
            (case cycleLoop M orc allNodes tasksByNameAndVariant fuel
                    (nodesInOrder (orc (snd st))
                       (dependenciesForTaskUnit node
                          (taskUnitOf tasksByNameAndVariant node) allNodes))
                    ((fst st)(node \<mapsto> True), Suc (snd st)) of
               None \<Rightarrow> None
             | Some (Some err, st') \<Rightarrow> Some (Some err, st')
             | Some (None, st') \<Rightarrow> Some (None, ((fst st')(node \<mapsto> False), snd st'))))"
| "cycleLoop M orc allNodes tasksByNameAndVariant fuel [] st = Some (None, st)"
| "cycleLoop M orc allNodes tasksByNameAndVariant fuel (dn # dns) st =
     (case dependencyCycleExists M orc allNodes tasksByNameAndVariant fuel dn st of
        None \<Rightarrow> None
      | Some (Some err, st') \<Rightarrow> Some (Some err, st')
      | Some (None, st') \<Rightarrow> cycleLoop M orc allNodes tasksByNameAndVariant fuel dns st')"

text \<open>
  \<^verbatim>\<open>checkDependencyGraph\<close>. The first loop over the map fills \<^verbatim>\<open>visited\<close> and
  \<^verbatim>\<open>allNodes\<close>, the second starts a search at every node; a search that returns an
  error leaves its marks in \<^verbatim>\<open>visited\<close>.
\<close>

definition dependencyFinding :: "TVPair \<Rightarrow> string \<Rightarrow> ValidationError" where
  "dependencyFinding node err =
     \<lparr>Level = Error,
      Message = ''dependency error for '' @ quoted (TaskName node) @ '' task: '' @ err\<rparr>"

fun graphLoop ::
  "ModelMethods \<Rightarrow> (nat \<Rightarrow> nat list) \<Rightarrow> TVPair list \<Rightarrow> TaskUnits \<Rightarrow> nat \<Rightarrow> TVPair list \<Rightarrow>
   SearchState \<Rightarrow> ValidationErrors option"
where
  "graphLoop M orc allNodes tvs fuel [] st = Some []"
| "graphLoop M orc allNodes tvs fuel (node # nodes) st =
     (case dependencyCycleExists M orc allNodes tvs fuel node st of
        None \<Rightarrow> None
      | Some (res, st') \<Rightarrow>
          (case graphLoop M orc allNodes tvs fuel nodes st' of
             None \<Rightarrow> None
           | Some errs \<Rightarrow>
               Some ((case res of None \<Rightarrow> [] | Some err \<Rightarrow> [dependencyFinding node err]) @
                     errs)))"

definition unvisited :: "TVPair list \<Rightarrow> (TVPair \<rightharpoonup> bool)" where
  "unvisited nodes = foldl (\<lambda>visited node. visited(node \<mapsto> False)) Map.empty nodes"

definition checkDependencyGraphOn ::
  "ModelMethods \<Rightarrow> (nat \<Rightarrow> nat list) \<Rightarrow> nat \<Rightarrow> TaskUnits \<Rightarrow> ValidationErrors option"
where
  "checkDependencyGraphOn M orc fuel tvs =
     (let allNodes = map fst (rangeMap (orc 0) tvs)
      in graphLoop M orc allNodes tvs fuel (map fst (rangeMap (orc 1) tvs))
           (unvisited allNodes, 2))"

definition checkDependencyGraph ::
  "ModelMethods \<Rightarrow> (nat \<Rightarrow> nat list) \<Rightarrow> nat \<Rightarrow> Project \<Rightarrow> ValidationErrors option"
where
  "checkDependencyGraph M orc fuel project =
     checkDependencyGraphOn M orc fuel (tvToTaskUnit M project)"

text \<open>
  The graph that the search walks: \<open>dependsOn tvs a b\<close> when \<open>a\<close> is a node of the map
  and \<open>b\<close> is one of the pairs that a dependency of its task unit expands to. A node is
  on a cycle when it reaches itself in one step or more.
\<close>

definition taskUnitTargets :: "TVPair \<Rightarrow> BuildVariantTaskUnit \<Rightarrow> TVPair list \<Rightarrow> TVPair list" where
  "taskUnitTargets tv taskUnit allTVs =
     concat (map (\<lambda>dep. depTargets tv dep allTVs) (bvtu_DependsOn taskUnit))"

definition dependsOn :: "TaskUnits \<Rightarrow> TVPair \<Rightarrow> TVPair \<Rightarrow> bool" where
  "dependsOn tvs a b =
     (case map_of tvs a of
        None \<Rightarrow> False
      | Some taskUnit \<Rightarrow> b \<in> set (taskUnitTargets a taskUnit (map fst tvs)))"

definition onCycle :: "TaskUnits \<Rightarrow> TVPair \<Rightarrow> bool" where
  "onCycle tvs n = ((n, n) \<in> {(a, b). dependsOn tvs a b}\<^sup>+)"

definition targetsPresent :: "TaskUnits \<Rightarrow> bool" where
  "targetsPresent tvs =
     list_all (\<lambda>(a, taskUnit).
       list_all (\<lambda>b. b \<in> fst ` set tvs) (taskUnitTargets a taskUnit (map fst tvs))) tvs"

section \<open>The search for a required dependency\<close>







section \<open>Concrete projects\<close>

text \<open>Inputs on which the checks are evaluated below.\<close>

definition baseProject :: Project where
  "baseProject = \<lparr>Identifier = ''P'', BatchTime = 0, CommandType = [], Tasks = [],
     BuildVariants = [], TaskGroups = [], Functions = [], Pre = None, Post = None,
     Timeout = None\<rparr>"

text \<open>
  A task that depends on every task of variant \<open>v1\<close> and, by name, on task \<open>a\<close> of the
  same variant.
\<close>

definition mixedDependencies :: Project where
  "mixedDependencies = baseProject\<lparr>Tasks :=
     [\<lparr>task_Name = ''t'',
       task_DependsOn =
         [\<lparr>dep_Name = AllDependencies, dep_Variant = ''v1'', dep_Status = [],
           dep_PatchOptional = False\<rparr>,
          \<lparr>dep_Name = ''a'', dep_Variant = ''v1'', dep_Status = [],
           dep_PatchOptional = False\<rparr>],
       task_Commands = []\<rparr>,
      \<lparr>task_Name = ''a'', task_DependsOn = [], task_Commands = []\<rparr>]\<rparr>"

text \<open>Two build variants with the same name and the same display name.\<close>

definition twoVariantsOneName :: Project where
  "twoVariantsOneName = baseProject\<lparr>BuildVariants :=
     [\<lparr>bv_Name = ''v'', bv_DisplayName = ''shown'', bv_RunOn = [''d''], bv_Tasks = []\<rparr>,
      \<lparr>bv_Name = ''v'', bv_DisplayName = ''shown'', bv_RunOn = [''d''], bv_Tasks = []\<rparr>]\<rparr>"

text \<open>
  A \<^verbatim>\<open>GetSpecForTask\<close> to evaluate with: the first task of that name, or the zero
  value of a task.
\<close>

definition findSpec :: "Project \<Rightarrow> string \<Rightarrow> ProjectTask" where
  "findSpec p name =
     (case filter (\<lambda>pt. task_Name pt = name) (Tasks p) of
        [] \<Rightarrow> \<lparr>task_Name = [], task_DependsOn = [], task_Commands = []\<rparr>
      | pt # _ \<Rightarrow> pt)"

text \<open>A task group of one task with one host.\<close>

definition singleTaskGroup :: Project where
  "singleTaskGroup = baseProject\<lparr>
     Tasks := [\<lparr>task_Name = ''a'', task_DependsOn = [], task_Commands = []\<rparr>],
     TaskGroups := [\<lparr>tg_Name = ''g'', tg_Tasks = [''a''], tg_MaxHosts = 1\<rparr>]\<rparr>"

text \<open>Two task groups of two tasks: one without hosts, one with two hosts.\<close>

definition hostlessTaskGroup :: Project where
  "hostlessTaskGroup = baseProject\<lparr>
     Tasks := [\<lparr>task_Name = ''a'', task_DependsOn = [], task_Commands = []\<rparr>,
               \<lparr>task_Name = ''b'', task_DependsOn = [], task_Commands = []\<rparr>],
     TaskGroups := [\<lparr>tg_Name = ''g'', tg_Tasks = [''a'', ''b''], tg_MaxHosts = 0\<rparr>,
                    \<lparr>tg_Name = ''h'', tg_Tasks = [''a'', ''b''], tg_MaxHosts = 2\<rparr>]\<rparr>"

text \<open>A build variant whose one task unit names a task that the project does not have.\<close>

definition undefinedTask :: Project where
  "undefinedTask = baseProject\<lparr>
     BuildVariants :=
       [\<lparr>bv_Name = ''v1'', bv_DisplayName = ''v1'', bv_RunOn = [],
         bv_Tasks = [\<lparr>bvtu_Name = ''t'', bvtu_IsGroup = False, bvtu_Variant = [],
           bvtu_DependsOn = [], bvtu_Distros = [], SkipOnPatchBuild = False,
           SkipOnNonPatchBuild = False, SkipOnNonGitTagBuild = False\<rparr>]\<rparr>]\<rparr>"

text \<open>A project with one function, and a command registry that renders every command.\<close>

definition oneFunction :: Project where
  "oneFunction = baseProject\<lparr>Functions :=
     [(''f'', Some [\<lparr>cmd_Function = [], cmd_Type = [], cmd_Command = ''shell.exec''\<rparr>])]\<rparr>"

definition renderOk :: "PluginCommandConf \<Rightarrow> (string \<times> YAMLCommandSet option) list \<Rightarrow> string option" where
  "renderOk cmd functions = None"

text \<open>
  Modelled from the spec: \<^verbatim>\<open>GetSpecForTask\<close>, \<^verbatim>\<open>Populate\<close>, \<^verbatim>\<open>CreateTasksFromGroup\<close> and
  the \<^verbatim>\<open>String\<close> method of \<^verbatim>\<open>TVPair\<close> are missing from the sources. Section 4.2 of the
  spec describes them: a task unit takes the dependencies of the task's spec where it
  has none of its own, and a task unit that names a group expands to one task unit per
  member of the group. These instances are what the checks are evaluated with below;
  the theorems hold for every instance.
\<close>

definition populateFromSpec :: "BuildVariantTaskUnit \<Rightarrow> ProjectTask \<Rightarrow> BuildVariantTaskUnit" where
  "populateFromSpec bvt pt =
     (if bvtu_DependsOn bvt = [] then bvt\<lparr>bvtu_DependsOn := task_DependsOn pt\<rparr> else bvt)"

definition tasksFromGroup :: "BuildVariantTaskUnit \<Rightarrow> Project \<Rightarrow> BuildVariantTaskUnit list" where
  "tasksFromGroup bvt p =
     (case filter (\<lambda>tg. tg_Name tg = bvtu_Name bvt) (TaskGroups p) of
        [] \<Rightarrow> []
      | tg # _ \<Rightarrow>
          map (\<lambda>t. populateFromSpec (bvt\<lparr>bvtu_Name := t, bvtu_IsGroup := True\<rparr>) (findSpec p t))
            (tg_Tasks tg))"

definition slashString :: "TVPair \<Rightarrow> string" where
  "slashString tv = Variant tv @ ''/'' @ TaskName tv"

definition exampleMethods :: ModelMethods where
  "exampleMethods = \<lparr>CreateTasksFromGroup = tasksFromGroup, Populate = populateFromSpec,
     GetSpecForTask = findSpec, TVPairString = slashString\<rparr>"

text \<open>A task unit that leaves everything to the task's spec, and a dependency by name.\<close>

definition plainUnit :: "string \<Rightarrow> BuildVariantTaskUnit" where
  "plainUnit name = \<lparr>bvtu_Name = name, bvtu_IsGroup = False, bvtu_Variant = [],
     bvtu_DependsOn = [], bvtu_Distros = [], SkipOnPatchBuild = False,
     SkipOnNonPatchBuild = False, SkipOnNonGitTagBuild = False\<rparr>"

definition dependsOnTask :: "string \<Rightarrow> string \<Rightarrow> TaskUnitDependency" where
  "dependsOnTask name status = \<lparr>dep_Name = name, dep_Variant = [], dep_Status = status,
     dep_PatchOptional = False\<rparr>"

text \<open>Tasks \<open>a\<close> and \<open>b\<close> on variant \<open>v1\<close>, each depending on the other.\<close>

definition twoTaskCycle :: Project where
  "twoTaskCycle = baseProject\<lparr>
     Tasks := [\<lparr>task_Name = ''a'', task_DependsOn = [dependsOnTask ''b'' []],
                task_Commands = []\<rparr>,
               \<lparr>task_Name = ''b'', task_DependsOn = [dependsOnTask ''a'' []],
                task_Commands = []\<rparr>],
     BuildVariants := [\<lparr>bv_Name = ''v1'', bv_DisplayName = ''v1'', bv_RunOn = [''d''],
                        bv_Tasks = [plainUnit ''a'', plainUnit ''b'']\<rparr>]\<rparr>"

text \<open>
  Task \<open>a\<close> depends on \<open>p\<close>, \<open>p\<close> on \<open>x\<close>, and \<open>x\<close> on itself; two iteration orders
  that differ in the loop over the nodes.
\<close>

definition chainIntoCycle :: Project where
  "chainIntoCycle = baseProject\<lparr>
     Tasks := [\<lparr>task_Name = ''a'', task_DependsOn = [dependsOnTask ''p'' []],
                task_Commands = []\<rparr>,
               \<lparr>task_Name = ''p'', task_DependsOn = [dependsOnTask ''x'' []],
                task_Commands = []\<rparr>,
               \<lparr>task_Name = ''x'', task_DependsOn = [dependsOnTask ''x'' []],
                task_Commands = []\<rparr>],
     BuildVariants := [\<lparr>bv_Name = ''v1'', bv_DisplayName = ''v1'', bv_RunOn = [''d''],
                        bv_Tasks = [plainUnit ''a'', plainUnit ''p'', plainUnit ''x'']\<rparr>]\<rparr>"

definition inOrder :: "nat \<Rightarrow> nat list" where
  "inOrder t = []"

definition nodesSwapped :: "nat \<Rightarrow> nat list" where
  "nodesSwapped t = (if t = 1 then [1, 0, 2] else [])"





text \<open>The two nodes of \<open>twoTaskCycle\<close>.\<close>

definition nodeA :: TVPair where
  "nodeA = \<lparr>Variant = ''v1'', TaskName = ''a''\<rparr>"

definition nodeB :: TVPair where
  "nodeB = \<lparr>Variant = ''v1'', TaskName = ''b''\<rparr>"

section \<open>What a search establishes\<close>

text \<open>
  \<open>depEdges\<close> is the graph as a relation. A search that
  returns an error has met, at some node \<open>m\<close> that its start reaches, one of three
  things: no entry in \<^verbatim>\<open>visited\<close>, a mark that was there before, or a mark of its own,
  which puts \<open>m\<close> on a cycle; the marks it leaves are on nodes that reach \<open>m\<close>. A search
  that returns no error leaves \<^verbatim>\<open>visited\<close> as it was, and every node below its start is
  unmarked and on no cycle. A node reaches a defect when it reaches a pair that is not a
  node of the map, or a node on a cycle.
\<close>

definition depEdges :: "TaskUnits \<Rightarrow> (TVPair \<times> TVPair) set" where
  "depEdges tvs = {(a, b). dependsOn tvs a b}"

definition searchCause ::
  "ModelMethods \<Rightarrow> (TVPair \<times> TVPair) set \<Rightarrow> (TVPair \<rightharpoonup> bool) \<Rightarrow> TVPair \<Rightarrow> string \<Rightarrow> bool" where
  "searchCause M E V m err =
     ((V m = None \<and> err = notPresentError M m) \<or>
      (V m = Some True \<and> err = cycleError M m) \<or>
      (V m = Some False \<and> (m, m) \<in> E\<^sup>+ \<and> err = cycleError M m))"

definition marksToward ::
  "(TVPair \<times> TVPair) set \<Rightarrow> (TVPair \<rightharpoonup> bool) \<Rightarrow> (TVPair \<rightharpoonup> bool) \<Rightarrow> TVPair \<Rightarrow> bool" where
  "marksToward E V V' m =
     (\<forall>x. V' x \<noteq> V x \<longrightarrow> V x = Some False \<and> V' x = Some True \<and> (x, m) \<in> E\<^sup>*)"

definition cleanBelow :: "(TVPair \<times> TVPair) set \<Rightarrow> (TVPair \<rightharpoonup> bool) \<Rightarrow> TVPair \<Rightarrow> bool" where
  "cleanBelow E V n = (\<forall>m. (n, m) \<in> E\<^sup>* \<longrightarrow> V m = Some False \<and> (m, m) \<notin> E\<^sup>+)"

definition searchSpec ::
  "ModelMethods \<Rightarrow> (TVPair \<times> TVPair) set \<Rightarrow> TVPair set \<Rightarrow> (TVPair \<rightharpoonup> bool) \<Rightarrow>
   string option \<Rightarrow> (TVPair \<rightharpoonup> bool) \<Rightarrow> bool" where
  "searchSpec M E starts V r V' =
     (case r of
        None \<Rightarrow> V' = V \<and> (\<forall>d \<in> starts. cleanBelow E V d)
      | Some err \<Rightarrow>
          (\<exists>d \<in> starts. \<exists>m. (d, m) \<in> E\<^sup>* \<and> searchCause M E V m err \<and> marksToward E V V' m))"

definition reachesDefect :: "TaskUnits \<Rightarrow> TVPair \<Rightarrow> bool" where
  "reachesDefect tvs n =
     (\<exists>m. (n, m) \<in> (depEdges tvs)\<^sup>* \<and> (m \<notin> fst ` set tvs \<or> (m, m) \<in> (depEdges tvs)\<^sup>+))"

text \<open>
  A finding reports on a node when it is at level \<open>Error\<close> and its message starts with
  the words that \<^verbatim>\<open>checkDependencyGraph\<close> puts before the error of a search started at
  that node.
\<close>

definition reportsOn :: "TVPair \<Rightarrow> ValidationError \<Rightarrow> bool" where
  "reportsOn n e =
     (Level e = Error \<and>
      prefix (''dependency error for '' @ quoted (TaskName n) @ '' task: '') (Message e))"

text \<open>
  Findings at the two named levels, and a finding whose level is neither of them.
\<close>

definition twoLevels :: ValidationErrors where
  "twoLevels = [\<lparr>Level = Warning, Message = ''w''\<rparr>, \<lparr>Level = Error, Message = ''e''\<rparr>]"

definition otherLevel :: ValidationErrors where
  "otherLevel = [\<lparr>Level = 2, Message = ''m''\<rparr>]"




section \<open>Iteration orders are permutations\<close>

lemma mset_permOf: "mset (permOf sugg n) = mset [0..<n]"
proof -
  define s where "s = remdups (filter (\<lambda>i. i < n) sugg)"
  have d: "distinct s" and sub: "set s \<subseteq> {0..<n}" by (auto simp: s_def)
  have "mset s = mset (filter (\<lambda>i. i \<in> set s) [0..<n])"
    using d sub by (intro set_eq_iff_mset_eq_distinct[THEN iffD1]) auto
  then have "mset (s @ filter (\<lambda>i. i \<notin> set s) [0..<n]) = mset [0..<n]"
    using multiset_partition[of "mset [0..<n]" "\<lambda>i. i \<in> set s"] by (simp del: mset_upt)
  then show ?thesis by (simp add: permOf_def s_def Let_def)
qed

lemma mset_rangeMap: "mset (rangeMap sugg m) = mset m"
proof -
  have "mset (map (\<lambda>i. m ! i) (permOf sugg (length m))) =
        mset (map (\<lambda>i. m ! i) [0..<length m])"
    by (metis mset_map mset_permOf)
  then show ?thesis by (simp add: rangeMap_def map_nth)
qed

lemma set_rangeMap: "set (rangeMap sugg m) = set m"
  using mset_rangeMap[of sugg m] by (metis set_mset_mset)

lemma distinct_rangeMap: "distinct (map fst m) \<Longrightarrow> distinct (map fst (rangeMap sugg m))"
proof -
  have "mset (map fst (rangeMap sugg m)) = mset (map fst m)"
    by (metis mset_map mset_rangeMap)
  then show "distinct (map fst m) \<Longrightarrow> distinct (map fst (rangeMap sugg m))"
    by (metis mset_eq_imp_distinct_iff)
qed

section \<open>Severity levels\<close>

lemma Error_neq_Warning: "Error \<noteq> Warning"
  by (simp add: Error_def Warning_def)

lemma Warning_neq_Error: "Warning \<noteq> Error"
  by (simp add: Error_def Warning_def)

lemma AtLevel_filter: "AtLevel F L = filter (\<lambda>e. Level e = L) F"
  by (induction F) auto

lemma AtLevel_two_levels:
  "mset (AtLevel F Error) + mset (AtLevel F Warning) =
   filter_mset (\<lambda>e. Level e = Error \<or> Level e = Warning) (mset F)"
  by (induction F) (auto simp: Error_neq_Warning Warning_neq_Error)

text \<open>
  C8, as the code has it. Selecting a level twice is selecting it once. The findings at
  level \<open>Error\<close> together with those at level \<open>Warning\<close> are all the findings, as
  multisets (every finding is counted once) and as sets, exactly when every finding of
  the list has one of these two levels: a level is a 64-bit integer, and a finding with
  another level is in neither selection.
\<close>

theorem AtLevel_idempotent_and_partition:
  "AtLevel (AtLevel F L) L = AtLevel F L \<and>
   (mset (AtLevel F Error) + mset (AtLevel F Warning) = mset F \<longleftrightarrow>
      (\<forall>e \<in> set F. Level e = Error \<or> Level e = Warning)) \<and>
   (set (AtLevel F Error) \<union> set (AtLevel F Warning) = set F \<longleftrightarrow>
      (\<forall>e \<in> set F. Level e = Error \<or> Level e = Warning))"
proof -
  have "filter_mset (\<lambda>e. Level e = Error \<or> Level e = Warning) (mset F) = mset F \<longleftrightarrow>
      (\<forall>e \<in> set F. Level e = Error \<or> Level e = Warning)"
    by (auto simp: filter_mset_eq_conv)
  then have m: "mset (AtLevel F Error) + mset (AtLevel F Warning) = mset F \<longleftrightarrow>
      (\<forall>e \<in> set F. Level e = Error \<or> Level e = Warning)"
    by (simp only: AtLevel_two_levels)
  have s: "set (AtLevel F Error) \<union> set (AtLevel F Warning) = set F \<longleftrightarrow>
      (\<forall>e \<in> set F. Level e = Error \<or> Level e = Warning)"
    by (auto simp: AtLevel_filter)
  have i: "AtLevel (AtLevel F L) L = AtLevel F L" by (simp add: AtLevel_filter)
  from i m s show ?thesis by blast
qed

theorem AtLevel_idempotent_and_partition_witness:
  "AtLevel (AtLevel twoLevels Error) Error = AtLevel twoLevels Error \<and>
   (\<exists>e \<in> set twoLevels. Level e = Error) \<and>
   (\<exists>e \<in> set twoLevels. Level e = Warning) \<and>
   mset (AtLevel twoLevels Error) + mset (AtLevel twoLevels Warning) = mset twoLevels \<and>
   set (AtLevel twoLevels Error) \<union> set (AtLevel twoLevels Warning) = set twoLevels"
proof -
  have h: "\<forall>e \<in> set twoLevels. Level e = Error \<or> Level e = Warning"
    by (simp add: twoLevels_def)
  have e: "\<exists>e \<in> set twoLevels. Level e = Error" by (simp add: twoLevels_def)
  have w: "\<exists>e \<in> set twoLevels. Level e = Warning" by (simp add: twoLevels_def)
  note inst = AtLevel_idempotent_and_partition[of twoLevels Error]
  from inst have i: "AtLevel (AtLevel twoLevels Error) Error = AtLevel twoLevels Error"
    by blast
  from inst h have m: "mset (AtLevel twoLevels Error) + mset (AtLevel twoLevels Warning) =
      mset twoLevels" by blast
  from inst h have s: "set (AtLevel twoLevels Error) \<union> set (AtLevel twoLevels Warning) =
      set twoLevels" by blast
  show ?thesis by (intro conjI i e w m s)
qed

text \<open>
  C8 as stated fails on a list that holds a finding of level 2: it is at neither of the
  two named levels, so the two selections are empty and their union is not the list.
\<close>

theorem AtLevel_other_level_counterexample:
  "AtLevel otherLevel Error = [] \<and> AtLevel otherLevel Warning = [] \<and>
   set (AtLevel otherLevel Error) \<union> set (AtLevel otherLevel Warning) \<noteq> set otherLevel \<and>
   mset (AtLevel otherLevel Error) + mset (AtLevel otherLevel Warning) \<noteq> mset otherLevel"
  by (simp add: otherLevel_def Error_def Warning_def)

section \<open>Project fields\<close>

text \<open>
  C6. A negative \<^verbatim>\<open>BatchTime\<close> gives a finding at level \<open>Error\<close>, a \<^verbatim>\<open>BatchTime\<close> above
  \<^verbatim>\<open>math.MaxInt32\<close> a finding at level \<open>Warning\<close>.
\<close>

theorem ensureHasNecessaryProjectFields_batchtime:
  "(BatchTime project < 0 \<longrightarrow>
     (\<exists>e \<in> set (ensureHasNecessaryProjectFields ValidCommandTypes project). Level e = Error)) \<and>
   (BatchTime project > MaxInt32 \<longrightarrow>
     (\<exists>e \<in> set (ensureHasNecessaryProjectFields ValidCommandTypes project). Level e = Warning))"
  by (simp add: ensureHasNecessaryProjectFields_def)

theorem ensureHasNecessaryProjectFields_batchtime_witness:
  "(\<exists>e \<in> set (ensureHasNecessaryProjectFields [] (baseProject\<lparr>BatchTime := - 1\<rparr>)).
      Level e = Error) \<and>
   (\<exists>e \<in> set (ensureHasNecessaryProjectFields [] (baseProject\<lparr>BatchTime := 2147483648\<rparr>)).
      Level e = Warning)"
  using ensureHasNecessaryProjectFields_batchtime[of "baseProject\<lparr>BatchTime := - 1\<rparr>" "[]"]
    ensureHasNecessaryProjectFields_batchtime[of "baseProject\<lparr>BatchTime := 2147483648\<rparr>" "[]"]
  by (simp add: baseProject_def MaxInt32_def)

section \<open>The all-dependencies sentinel\<close>

text \<open>
  C4. The check is documented to ensure that a task which references
  \<^verbatim>\<open>model.AllDependencies\<close> references no other dependency within the variant. On
  \<open>mixedDependencies\<close> the sentinel on variant \<open>v1\<close> stands beside a second dependency
  on \<open>v1\<close>, and the check finds nothing: only a sentinel without a variant, or a second
  sentinel on a variant, is reported.
\<close>

theorem checkAllDependenciesSpec_misses_mixed:
  "checkAllDependenciesSpec mixedDependencies = []"
  by (simp add: checkAllDependenciesSpec_def mixedDependencies_def baseProject_def
      AllDependencies_def)

section \<open>Build variant names\<close>

lemma validateBVNamesStep_levels:
  "(\<forall>e \<in> set (fst acc). Level e = Error) \<Longrightarrow>
   (\<forall>e \<in> set (fst (validateBVNamesStep project acc bv)). Level e = Error)"
  by (simp add: validateBVNamesStep_def Let_def)

lemma validateBVNames_loop_levels:
  "(\<forall>e \<in> set (fst acc). Level e = Error) \<Longrightarrow>
   (\<forall>e \<in> set (fst (foldl (validateBVNamesStep project) acc bvs)). Level e = Error)"
proof (induction bvs arbitrary: acc)
  case Nil
  then show ?case by simp
next
  case (Cons bv bvs)
  show ?case
    using Cons.IH[OF validateBVNamesStep_levels[OF Cons.prems]] by simp
qed

lemma displayNameFinding_levels:
  "e \<in> set (concat (map displayNameFinding entries)) \<Longrightarrow> Level e = Warning"
  by (auto simp: displayNameFinding_def split: if_splits)

text \<open>
  C10. When \<^verbatim>\<open>validateBVNames\<close> returns a finding at level \<open>Error\<close>, it returns no
  finding at level \<open>Warning\<close>, whatever the display names are and in whatever order the
  map of display names is walked.
\<close>

theorem validateBVNames_errors_suppress_warnings:
  assumes "\<exists>e \<in> set (validateBVNames ord project). Level e = Error"
  shows "\<not> (\<exists>e \<in> set (validateBVNames ord project). Level e = Warning)"
proof -
  define acc where
    "acc = foldl (validateBVNamesStep project) ([], Map.empty, []) (BuildVariants project)"
  have errs: "\<forall>e \<in> set (fst acc). Level e = Error"
    unfolding acc_def by (rule validateBVNames_loop_levels) simp
  show ?thesis
  proof (cases "fst acc = []")
    case True
    then have "validateBVNames ord project =
        concat (map displayNameFinding (rangeMap ord (snd (snd acc))))"
      by (simp add: validateBVNames_def acc_def Let_def)
    with assms show ?thesis
      using displayNameFinding_levels Error_neq_Warning by fastforce
  next
    case False
    then have "validateBVNames ord project = fst acc"
      by (simp add: validateBVNames_def acc_def Let_def)
    with errs show ?thesis using Error_neq_Warning by auto
  qed
qed

lemma twoVariantsOneName_findings:
  "validateBVNames [] twoVariantsOneName =
     [\<lparr>Level = Error, Message = ''project 'P' buildvariant 'v' already exists''\<rparr>]"
  by (auto simp add: validateBVNames_def twoVariantsOneName_def baseProject_def
      validateBVNamesStep_def Let_def ContainsAny_def unauthorizedCharacters_def quoted_def
      apos_def)

theorem validateBVNames_errors_suppress_warnings_witness:
  "(\<exists>e \<in> set (validateBVNames [] twoVariantsOneName). Level e = Error) \<and>
   \<not> (\<exists>e \<in> set (validateBVNames [] twoVariantsOneName). Level e = Warning)"
proof -
  have h: "\<exists>e \<in> set (validateBVNames [] twoVariantsOneName). Level e = Error"
    by (simp add: twoVariantsOneName_findings)
  from validateBVNames_errors_suppress_warnings[OF h] h show ?thesis by blast
qed

section \<open>Task groups\<close>

lemma checkTaskGroupsStep_mono:
  "set (fst acc) \<subseteq> set (fst (checkTaskGroupsStep acc tg))"
  by (auto simp: checkTaskGroupsStep_def Let_def)

lemma checkTaskGroups_loop_mono:
  "set (fst acc) \<subseteq> set (fst (foldl checkTaskGroupsStep acc tgs))"
proof (induction tgs arbitrary: acc)
  case Nil
  then show ?case by simp
next
  case (Cons tg tgs)
  show ?case using checkTaskGroupsStep_mono[of acc tg] Cons.IH[of "checkTaskGroupsStep acc tg"]
    by auto
qed

lemma checkTaskGroupsStep_low:
  "tg_MaxHosts tg < 1 \<Longrightarrow>
   \<lparr>Level = Warning, Message = maxHostsLowMessage tg\<rparr> \<in> set (fst (checkTaskGroupsStep acc tg))"
  by (auto simp: checkTaskGroupsStep_def Let_def)

lemma checkTaskGroupsStep_high:
  "length (tg_Tasks tg) \<noteq> 1 \<Longrightarrow> tg_MaxHosts tg > int (length (tg_Tasks tg)) div 2 \<Longrightarrow>
   \<lparr>Level = Warning, Message = maxHostsHighMessage tg\<rparr> \<in> set (fst (checkTaskGroupsStep acc tg))"
  by (auto simp: checkTaskGroupsStep_def Let_def)

lemma checkTaskGroups_loop_member:
  assumes "tg \<in> set tgs"
    and "\<And>acc. e \<in> set (fst (checkTaskGroupsStep acc tg))"
  shows "e \<in> set (fst (foldl checkTaskGroupsStep acc tgs))"
  using assms(1)
proof (induction tgs arbitrary: acc)
  case Nil
  then show ?case by simp
next
  case (Cons x tgs)
  show ?case
  proof (cases "x = tg")
    case True
    have "e \<in> set (fst (checkTaskGroupsStep acc tg))" by (rule assms(2))
    then show ?thesis
      using True checkTaskGroups_loop_mono[of "checkTaskGroupsStep acc tg" tgs] by auto
  next
    case False
    with Cons.prems have "tg \<in> set tgs" by simp
    from Cons.IH[OF this] show ?thesis by simp
  qed
qed

text \<open>
  C7, as the code has it. For every task group of the project, \<^verbatim>\<open>checkTaskGroups\<close>
  gives a warning when \<^verbatim>\<open>MaxHosts\<close> is less than 1, and a warning when the group does
  not consist of exactly one task and \<^verbatim>\<open>MaxHosts\<close> is greater than half the number of
  its tasks.
\<close>

theorem checkTaskGroups_max_hosts:
  assumes "tg \<in> set (TaskGroups p)"
  shows "(tg_MaxHosts tg < 1 \<longrightarrow>
            \<lparr>Level = Warning, Message = maxHostsLowMessage tg\<rparr>
              \<in> set (checkTaskGroups GetSpec ord p)) \<and>
         (length (tg_Tasks tg) \<noteq> 1 \<and> tg_MaxHosts tg > int (length (tg_Tasks tg)) div 2 \<longrightarrow>
            \<lparr>Level = Warning, Message = maxHostsHighMessage tg\<rparr>
              \<in> set (checkTaskGroups GetSpec ord p))"
  using checkTaskGroups_loop_member[OF assms, of _ "([], [])"]
    checkTaskGroupsStep_low[of tg] checkTaskGroupsStep_high[of tg]
  by (auto simp: checkTaskGroups_def Let_def)

text \<open>
  C7 as stated fails on a group of one task with one host: 1 is greater than half the
  number of tasks (1 / 2 = 0), and the check, which skips groups of one task, finds
  nothing.
\<close>

theorem checkTaskGroups_single_task_counterexample:
  "tg_MaxHosts \<lparr>tg_Name = ''g'', tg_Tasks = [''a''], tg_MaxHosts = 1\<rparr>
     > int (length (tg_Tasks \<lparr>tg_Name = ''g'', tg_Tasks = [''a''], tg_MaxHosts = 1\<rparr>)) div 2 \<and>
   TaskGroups singleTaskGroup = [\<lparr>tg_Name = ''g'', tg_Tasks = [''a''], tg_MaxHosts = 1\<rparr>] \<and>
   checkTaskGroups findSpec [] singleTaskGroup = []"
  by (simp add: checkTaskGroups_def singleTaskGroup_def baseProject_def checkTaskGroupsStep_def
      Let_def rangeMap_def permOf_def)

lemma hostlessTaskGroup_findings:
  "checkTaskGroups findSpec [] hostlessTaskGroup =
     [\<lparr>Level = Warning, Message = ''task group g has number of hosts 0 less than 1''\<rparr>,
      \<lparr>Level = Warning,
       Message = ''task group h has max number of hosts 2 greater than half the number of tasks 2''\<rparr>]"
  by code_simp

theorem checkTaskGroups_max_hosts_witness:
  "\<lparr>tg_Name = ''g'', tg_Tasks = [''a'', ''b''], tg_MaxHosts = 0\<rparr> \<in> set (TaskGroups hostlessTaskGroup) \<and>
   \<lparr>Level = Warning, Message = ''task group g has number of hosts 0 less than 1''\<rparr>
      \<in> set (checkTaskGroups findSpec [] hostlessTaskGroup) \<and>
   \<lparr>tg_Name = ''h'', tg_Tasks = [''a'', ''b''], tg_MaxHosts = 2\<rparr> \<in> set (TaskGroups hostlessTaskGroup) \<and>
   \<lparr>Level = Warning,
     Message = ''task group h has max number of hosts 2 greater than half the number of tasks 2''\<rparr>
      \<in> set (checkTaskGroups findSpec [] hostlessTaskGroup)"
proof -
  have g: "\<lparr>tg_Name = ''g'', tg_Tasks = [''a'', ''b''], tg_MaxHosts = 0\<rparr>
      \<in> set (TaskGroups hostlessTaskGroup)"
    and h: "\<lparr>tg_Name = ''h'', tg_Tasks = [''a'', ''b''], tg_MaxHosts = 2\<rparr>
      \<in> set (TaskGroups hostlessTaskGroup)"
    by (simp_all add: hostlessTaskGroup_def baseProject_def)
  from checkTaskGroups_max_hosts[OF g, of findSpec "[]"] checkTaskGroups_max_hosts[OF h, of findSpec "[]"] g h
  show ?thesis
    by (simp add: maxHostsLowMessage_def maxHostsHighMessage_def showInt_def showNat.simps)
qed

section \<open>A failing distro query\<close>

text \<open>
  C3, as the code has it. When the distro query fails, \<^verbatim>\<open>CheckProjectSyntax\<close> appends
  one finding at level \<open>Error\<close> with the fixed message
  \<^verbatim>\<open>can't get distros from database\<close>, whatever the error was, and then the findings of
  \<^verbatim>\<open>ensureReferentialIntegrity\<close> run with no distro and no alias.
\<close>

theorem CheckProjectSyntax_distro_failure:
  "CheckProjectSyntax Sprintf projectSyntaxValidators (Inl err) project =
     concat (map (\<lambda>validator. validator project) projectSyntaxValidators) @
     [\<lparr>Level = Error, Message = ''can't get distros from database''\<rparr>] @
     ensureReferentialIntegrity Sprintf project [] []"
  by (simp add: CheckProjectSyntax_def getDistrosForProject_def cantGetDistros_def)

theorem CheckProjectSyntax_distro_failure_witness:
  "\<forall>Sprintf. CheckProjectSyntax Sprintf [checkAllDependenciesSpec] (Inl ''connection refused'')
      baseProject =
     [\<lparr>Level = Error, Message = ''can't get distros from database''\<rparr>]"
  using CheckProjectSyntax_distro_failure[of _ "[checkAllDependenciesSpec]"
      "''connection refused''" baseProject]
  by (simp add: checkAllDependenciesSpec_def ensureReferentialIntegrity_def baseProject_def)

lemma undefinedTask_integrity:
  "ensureReferentialIntegrity Sprintf undefinedTask [] [] =
     [\<lparr>Level = Error,
       Message = ''buildvariant 'v1' in project 'P' references a non-existent task '' @
         quoted ''t''\<rparr>]"
  by (simp add: ensureReferentialIntegrity_def referentialBV_def referentialTask_def
      undefinedTask_def baseProject_def quoted_def apos_def)

lemma undefinedTask_syntax:
  "CheckProjectSyntax Sprintf [checkAllDependenciesSpec, ensureHasNecessaryProjectFields []]
     (Inl ''connection refused'') undefinedTask =
     [\<lparr>Level = Error, Message = ''can't get distros from database''\<rparr>,
      \<lparr>Level = Error,
       Message = ''buildvariant 'v1' in project 'P' references a non-existent task '' @
         quoted ''t''\<rparr>]"
proof -
  have "checkAllDependenciesSpec undefinedTask = []"
    by (simp add: checkAllDependenciesSpec_def undefinedTask_def baseProject_def)
  moreover have "ensureHasNecessaryProjectFields [] undefinedTask = []"
    by (simp add: ensureHasNecessaryProjectFields_def undefinedTask_def baseProject_def
        MaxInt32_def)
  ultimately show ?thesis
    by (simp add: CheckProjectSyntax_def getDistrosForProject_def cantGetDistros_def
        undefinedTask_integrity)
qed

text \<open>
  C3 as stated fails on \<open>undefinedTask\<close> with the error \<open>connection refused\<close>: the
  finding appended does not hold the error's text, and the referential-integrity pass
  runs and reports the task \<open>t\<close>, whatever \<^verbatim>\<open>fmt.Sprintf\<close> does.
\<close>

theorem CheckProjectSyntax_distro_failure_counterexample:
  "\<forall>Sprintf.
     CheckProjectSyntax Sprintf [checkAllDependenciesSpec, ensureHasNecessaryProjectFields []]
       (Inl ''connection refused'') undefinedTask =
       [\<lparr>Level = Error, Message = ''can't get distros from database''\<rparr>,
        \<lparr>Level = Error,
         Message = ''buildvariant 'v1' in project 'P' references a non-existent task '' @
           quoted ''t''\<rparr>] \<and>
     \<not> sublist ''connection refused'' ''can't get distros from database'' \<and>
     ensureReferentialIntegrity Sprintf undefinedTask [] [] =
       [\<lparr>Level = Error,
         Message = ''buildvariant 'v1' in project 'P' references a non-existent task '' @
           quoted ''t''\<rparr>]"
proof -
  have "\<not> sublist ''connection refused'' ''can't get distros from database''" by code_simp
  then show ?thesis using undefinedTask_integrity undefinedTask_syntax by simp
qed

section \<open>Duplicate function definitions\<close>

lemma validateCommands_prefix:
  "e \<in> set (validateCommands Render T section p cs) \<Longrightarrow>
   \<exists>rest. Message e = section @ '' section in '' @ rest"
  by (auto simp: validateCommands_def validateCommand_def Let_def split: option.splits if_splits)

lemma duplicateDefinitionMessage_prefix:
  "prefix ''pro'' (duplicateDefinitionMessage p fn)"
  by (simp add: duplicateDefinitionMessage_def)

lemma pluginFunctionsLoop_messages:
  "distinct (map fst entries) \<Longrightarrow> \<forall>k \<in> fst ` set entries. seen k \<noteq> Some True \<Longrightarrow>
   e \<in> set (pluginFunctionsLoop Render T p entries seen) \<Longrightarrow>
   \<not> prefix ''pro'' (Message e)"
proof (induction entries arbitrary: seen)
  case Nil
  then show ?case by simp
next
  case (Cons entry entries)
  obtain funcName commands where entry: "entry = (funcName, commands)" by (cases entry)
  have d: "distinct (map fst entries)" and notin: "funcName \<notin> fst ` set entries"
    using Cons.prems(1) entry by auto
  have seenk: "seen funcName \<noteq> Some True" using Cons.prems(2) entry by simp
  have rest: "\<forall>k \<in> fst ` set entries. seen k \<noteq> Some True" using Cons.prems(2) by simp
  have rest': "\<forall>k \<in> fst ` set entries. (seen(funcName \<mapsto> True)) k \<noteq> Some True"
    using rest notin by auto
  show ?case
  proof (cases "case commands of None \<Rightarrow> True | Some cs \<Rightarrow> length cs = 0")
    case True
    with Cons.prems(3) entry
    have "e = \<lparr>Level = Error,
             Message = quoted (Identifier p) @ '' project's '' @ quoted funcName @
               '' function contains no commands''\<rparr> \<or>
          e \<in> set (pluginFunctionsLoop Render T p entries seen)"
      by simp
    then show ?thesis
      using Cons.IH[OF d rest] by (auto simp: quoted_def apos_def)
  next
    case False
    with Cons.prems(3) entry seenk
    have "e \<in> (\<lambda>err. \<lparr>Level = Error,
               Message = quoted (Identifier p) @ '' project's '' @ quoted funcName @
                 '' definition: '' @ Message err\<rparr>) `
             set (validateCommands Render T ''functions'' p (the commands)) \<or>
          e \<in> set (concat (map (\<lambda>c. if cmd_Function c \<noteq> []
               then [\<lparr>Level = Error,
                       Message = ''can not reference a function within a function: '' @
                         quoted (cmd_Function c) @ '' referenced within '' @
                         quoted funcName\<rparr>]
               else []) (the commands))) \<or>
          e \<in> set (pluginFunctionsLoop Render T p entries (seen(funcName \<mapsto> True)))"
      by auto
    moreover have "e \<in> set (pluginFunctionsLoop Render T p entries (seen(funcName \<mapsto> True)))
        \<Longrightarrow> \<not> prefix ''pro'' (Message e)"
      by (rule Cons.IH[OF d rest'])
    moreover have "e \<in> set (concat (map (\<lambda>c. if cmd_Function c \<noteq> []
               then [\<lparr>Level = Error,
                       Message = ''can not reference a function within a function: '' @
                         quoted (cmd_Function c) @ '' referenced within '' @
                         quoted funcName\<rparr>]
               else []) (the commands))) \<Longrightarrow> \<not> prefix ''pro'' (Message e)"
      by (auto split: if_splits)
    moreover have "e \<in> (\<lambda>err. \<lparr>Level = Error,
               Message = quoted (Identifier p) @ '' project's '' @ quoted funcName @
                 '' definition: '' @ Message err\<rparr>) `
             set (validateCommands Render T ''functions'' p (the commands))
         \<Longrightarrow> \<not> prefix ''pro'' (Message e)"
      by (auto simp: quoted_def apos_def)
    ultimately show ?thesis by blast
  qed
qed

lemma validatePluginCommands_messages:
  assumes "distinct (map fst (Functions project))"
    and "e \<in> set (validatePluginCommands Render T ord project)"
  shows "\<not> prefix ''pro'' (Message e)"
proof -
  have d: "distinct (map fst (rangeMap ord (Functions project)))"
    using assms(1) by (rule distinct_rangeMap)
  from assms(2) consider
      (funs) "e \<in> set (pluginFunctionsLoop Render T project
                (rangeMap ord (Functions project)) Map.empty)"
    | (pre) cs where "e \<in> set (validateCommands Render T ''pre'' project cs)"
    | (post) cs where "e \<in> set (validateCommands Render T ''post'' project cs)"
    | (timeout) cs where "e \<in> set (validateCommands Render T ''timeout'' project cs)"
    | (tasks) cs where "e \<in> set (validateCommands Render T ''tasks'' project cs)"
    by (auto simp: validatePluginCommands_def split: option.splits)
  then show ?thesis
  proof cases
    case funs
    show ?thesis by (rule pluginFunctionsLoop_messages[OF d _ funs]) simp
  next
    case pre
    from validateCommands_prefix[OF this] show ?thesis by auto
  next
    case post
    from validateCommands_prefix[OF this] show ?thesis by auto
  next
    case timeout
    from validateCommands_prefix[OF this] show ?thesis by auto
  next
    case tasks
    from validateCommands_prefix[OF this] show ?thesis by auto
  qed
qed

text \<open>
  C9, as the code has it. \<^verbatim>\<open>project.Functions\<close> is a map keyed by the function's
  name, so the loop meets every name once and \<^verbatim>\<open>seen[funcName]\<close> is never set when it
  is read: no finding of \<^verbatim>\<open>validatePluginCommands\<close> has the message of a duplicate
  definition.
\<close>

theorem validatePluginCommands_no_duplicate_finding:
  assumes "distinct (map fst (Functions project))"
  shows "duplicateDefinitionMessage project funcName
           \<notin> Message ` set (validatePluginCommands Render T ord project)"
proof
  assume "duplicateDefinitionMessage project funcName
           \<in> Message ` set (validatePluginCommands Render T ord project)"
  then obtain e where e: "e \<in> set (validatePluginCommands Render T ord project)"
    and m: "Message e = duplicateDefinitionMessage project funcName" by auto
  from validatePluginCommands_messages[OF assms e] m duplicateDefinitionMessage_prefix
  show False by simp
qed

theorem validatePluginCommands_no_duplicate_finding_witness:
  "distinct (map fst (Functions oneFunction)) \<and>
   duplicateDefinitionMessage oneFunction ''f''
     \<notin> Message ` set (validatePluginCommands renderOk [] [] oneFunction)"
proof -
  have h: "distinct (map fst (Functions oneFunction))"
    by (simp add: oneFunction_def baseProject_def)
  from validatePluginCommands_no_duplicate_finding[OF h] h show ?thesis by blast
qed

text \<open>
  C9 as stated says that some input produces the finding of a duplicate definition.
  No project, command registry and iteration order does.
\<close>

theorem validatePluginCommands_duplicate_counterexample:
  "\<not> (\<exists>Render T ord project funcName.
        distinct (map fst (Functions project)) \<and>
        \<lparr>Level = Error, Message = duplicateDefinitionMessage project funcName\<rparr>
          \<in> set (validatePluginCommands Render T ord project))"
  using validatePluginCommands_messages duplicateDefinitionMessage_prefix
  by (metis ValidationError.select_convs(2))

section \<open>The cycle search\<close>

lemma update_values:
  "\<Union>(set ` snd ` set (AList.update k ((case map_of al k of None \<Rightarrow> [] | Some ns \<Rightarrow> ns) @ new) al)) =
   \<Union>(set ` snd ` set al) \<union> set new"
  by (induction al) auto

lemma addDependency_values:
  "\<Union>(set ` snd ` set (addDependency tv allTVs acc dep)) =
   \<Union>(set ` snd ` set acc) \<union> set (depTargets tv dep allTVs)"
  using update_values[of dep acc "depTargets tv dep allTVs"]
  by (simp add: addDependency_def Let_def)

lemma dependencies_loop_values:
  "\<Union>(set ` snd ` set (foldl (addDependency tv allTVs) acc deps)) =
   \<Union>(set ` snd ` set acc) \<union> (\<Union>dep \<in> set deps. set (depTargets tv dep allTVs))"
proof (induction deps arbitrary: acc)
  case Nil
  then show ?case by simp
next
  case (Cons dep deps)
  show ?case
    using Cons.IH[of "addDependency tv allTVs acc dep"] addDependency_values[of tv allTVs acc dep]
    by (simp add: Un_assoc)
qed

lemma nodesInOrder_set:
  "set (nodesInOrder ord (dependenciesForTaskUnit tv taskUnit allTVs)) =
   set (taskUnitTargets tv taskUnit allTVs)"
  using dependencies_loop_values[of tv allTVs "[]" "bvtu_DependsOn taskUnit"]
  by (simp add: nodesInOrder_def dependenciesForTaskUnit_def taskUnitTargets_def set_rangeMap)

lemma depTargets_set_cong:
  "set allTVs = set allTVs' \<Longrightarrow> set (depTargets tv dep allTVs) = set (depTargets tv dep allTVs')"
  by (simp add: depTargets_def Let_def)

lemma taskUnitOf_missing:
  "map_of tvs a = None \<Longrightarrow> taskUnitTargets a (taskUnitOf tvs a) allTVs = []"
  by (simp add: taskUnitOf_def zeroTaskUnit_def taskUnitTargets_def)

lemma successors_depEdges:
  assumes "set allNodes = fst ` set tvs"
  shows "set (nodesInOrder ord (dependenciesForTaskUnit n (taskUnitOf tvs n) allNodes)) =
         depEdges tvs `` {n}"
proof -
  have "set (taskUnitTargets n (taskUnitOf tvs n) allNodes) =
        set (taskUnitTargets n (taskUnitOf tvs n) (map fst tvs))"
    using assms depTargets_set_cong[of allNodes "map fst tvs"]
    by (simp add: taskUnitTargets_def)
  moreover have "set (taskUnitTargets n (taskUnitOf tvs n) (map fst tvs)) = depEdges tvs `` {n}"
  proof (cases "map_of tvs n")
    case None
    then show ?thesis by (simp add: depEdges_def dependsOn_def taskUnitOf_missing)
  next
    case (Some taskUnit)
    then show ?thesis by (auto simp: depEdges_def dependsOn_def taskUnitOf_def)
  qed
  ultimately show ?thesis by (simp add: nodesInOrder_set)
qed


lemma loop_sound_step:
  assumes head: "\<And>n t r V' t'.
      dependencyCycleExists M orc allNodes tvs f n (V, t) = Some (r, (V', t')) \<Longrightarrow>
      searchSpec M E {n} V r V'"
  shows "cycleLoop M orc allNodes tvs f ns (V, t) = Some (r, (V', t')) \<Longrightarrow>
         searchSpec M E (set ns) V r V'"
proof (induction ns arbitrary: t)
  case Nil
  then show ?case by (simp add: searchSpec_def)
next
  case (Cons d ds)
  show ?case
  proof (cases "dependencyCycleExists M orc allNodes tvs f d (V, t)")
    case None
    with Cons.prems show ?thesis by simp
  next
    case (Some res)
    obtain r1 V1 t1 where res: "res = (r1, (V1, t1))" by (metis prod.exhaust)
    have spec1: "searchSpec M E {d} V r1 V1" using head Some res by blast
    show ?thesis
    proof (cases r1)
      case None
      with spec1 have V1: "V1 = V" and clean: "cleanBelow E V d"
        by (simp_all add: searchSpec_def)
      from Cons.prems Some res None V1
      have "cycleLoop M orc allNodes tvs f ds (V, t1) = Some (r, (V', t'))" by simp
      from Cons.IH[OF this] clean show ?thesis
        by (auto simp: searchSpec_def split: option.splits)
    next
      case (Some err)
      with Cons.prems \<open>dependencyCycleExists M orc allNodes tvs f d (V, t) = Some res\<close> res
      have "r = Some err" "V' = V1" by simp_all
      with spec1 Some show ?thesis by (auto simp: searchSpec_def)
    qed
  qed
qed

lemma search_sound_step:
  assumes succ: "\<And>n ord. set (nodesInOrder ord
        (dependenciesForTaskUnit n (taskUnitOf tvs n) allNodes)) = E `` {n}"
    and loop: "\<And>ns V t r V' t'.
      cycleLoop M orc allNodes tvs f ns (V, t) = Some (r, (V', t')) \<Longrightarrow>
      searchSpec M E (set ns) V r V'"
    and run: "dependencyCycleExists M orc allNodes tvs (Suc f) n (V, t) = Some (r, (V', t'))"
  shows "searchSpec M E {n} V r V'"
proof (cases "V n")
  case None
  with run have "r = Some (notPresentError M n)" "V' = V" by simp_all
  then show ?thesis using None
    by (auto simp: searchSpec_def searchCause_def marksToward_def)
next
  case (Some v)
  show ?thesis
  proof (cases v)
    case True
    with run Some have "r = Some (cycleError M n)" "V' = V" by simp_all
    then show ?thesis using Some True
      by (auto simp: searchSpec_def searchCause_def marksToward_def)
  next
    case False
    define ns where "ns = nodesInOrder (orc t)
        (dependenciesForTaskUnit n (taskUnitOf tvs n) allNodes)"
    define V1 where "V1 = V(n \<mapsto> True)"
    have ns: "set ns = E `` {n}" unfolding ns_def by (rule succ)
    have Vn: "V n = Some False" using Some False by simp
    obtain lr V2 t2 where lres:
      "cycleLoop M orc allNodes tvs f ns (V1, Suc t) = Some (lr, (V2, t2))"
      using run Vn unfolding ns_def V1_def
      by (cases "cycleLoop M orc allNodes tvs f (nodesInOrder (orc t)
            (dependenciesForTaskUnit n (taskUnitOf tvs n) allNodes)) (V(n \<mapsto> True), Suc t)")
         auto
    have lspec: "searchSpec M E (E `` {n}) V1 lr V2" using loop[OF lres] ns by simp
    show ?thesis
    proof (cases lr)
      case None
      with lspec have V2: "V2 = V1" and clean: "\<forall>d \<in> E `` {n}. cleanBelow E V1 d"
        by (simp_all add: searchSpec_def)
      from run Vn lres None have r: "r = None" and V': "V' = V2(n \<mapsto> False)"
        unfolding ns_def V1_def by simp_all
      have "V' = V" using V' V2 Vn unfolding V1_def by auto
      moreover have "cleanBelow E V n"
        unfolding cleanBelow_def
      proof (intro allI impI)
        fix m assume nm: "(n, m) \<in> E\<^sup>*"
        show "V m = Some False \<and> (m, m) \<notin> E\<^sup>+"
        proof (cases "m = n")
          case True
          have "(n, n) \<notin> E\<^sup>+"
          proof
            assume "(n, n) \<in> E\<^sup>+"
            then obtain d where "(n, d) \<in> E" "(d, n) \<in> E\<^sup>*" by (meson tranclD)
            with clean have "V1 n = Some False" by (auto simp: cleanBelow_def)
            then show False by (simp add: V1_def)
          qed
          with True Vn show ?thesis by simp
        next
          case False
          with nm obtain d where "(n, d) \<in> E" "(d, m) \<in> E\<^sup>*"
            by (metis converse_rtranclE)
          with clean have "V1 m = Some False" "(m, m) \<notin> E\<^sup>+" by (auto simp: cleanBelow_def)
          with False show ?thesis by (simp add: V1_def)
        qed
      qed
      ultimately show ?thesis using r by (simp add: searchSpec_def)
    next
      case (Some err)
      from run Vn lres Some have r: "r = Some err" and V': "V' = V2"
        unfolding ns_def V1_def by simp_all
      from lspec Some obtain d m where d: "(n, d) \<in> E" and dm: "(d, m) \<in> E\<^sup>*"
        and cause: "searchCause M E V1 m err" and marks: "marksToward E V1 V2 m"
        by (auto simp: searchSpec_def)
      have nm: "(n, m) \<in> E\<^sup>*" using d dm by (meson converse_rtrancl_into_rtrancl)
      have cause': "searchCause M E V m err"
      proof (cases "m = n")
        case True
        have "(n, n) \<in> E\<^sup>+" using d dm True by (meson rtrancl_into_trancl2)
        with cause True Vn show ?thesis by (auto simp: searchCause_def V1_def)
      next
        case False
        with cause show ?thesis by (auto simp: searchCause_def V1_def)
      qed
      have marks': "marksToward E V V2 m"
        unfolding marksToward_def
      proof (intro allI impI)
        fix x assume x: "V2 x \<noteq> V x"
        show "V x = Some False \<and> V2 x = Some True \<and> (x, m) \<in> E\<^sup>*"
        proof (cases "x = n")
          case True
          have "V2 n = Some True"
            using marks[unfolded marksToward_def, THEN spec, of n] by (auto simp: V1_def)
          with True Vn nm show ?thesis by simp
        next
          case False
          with x have "V2 x \<noteq> V1 x" by (simp add: V1_def)
          with marks[unfolded marksToward_def, THEN spec, of x] False
          show ?thesis by (simp add: V1_def)
        qed
      qed
      show ?thesis using r V' nm cause' marks' by (auto simp: searchSpec_def)
    qed
  qed
qed

lemma search_sound:
  assumes succ: "\<And>n ord. set (nodesInOrder ord
        (dependenciesForTaskUnit n (taskUnitOf tvs n) allNodes)) = E `` {n}"
  shows "dependencyCycleExists M orc allNodes tvs f n (V, t) = Some (r, (V', t')) \<Longrightarrow>
         searchSpec M E {n} V r V'"
proof (induction f arbitrary: n V t r V' t')
  case 0
  then show ?case by simp
next
  case (Suc f)
  show ?case
  proof (rule search_sound_step[OF succ _ Suc.prems])
    fix ns V t r V' t'
    assume "cycleLoop M orc allNodes tvs f ns (V, t) = Some (r, (V', t'))"
    then show "searchSpec M E (set ns) V r V'"
      by (rule loop_sound_step[rotated]) (rule Suc.IH)
  qed
qed


lemma loop_total_step:
  assumes head: "\<And>n t. \<exists>res. dependencyCycleExists M orc allNodes tvs f n (V, t) = Some res"
    and sound: "\<And>n t r V' t'.
      dependencyCycleExists M orc allNodes tvs f n (V, t) = Some (r, (V', t')) \<Longrightarrow>
      searchSpec M E {n} V r V'"
  shows "\<exists>res. cycleLoop M orc allNodes tvs f ns (V, t) = Some res"
proof (induction ns arbitrary: t)
  case Nil
  then show ?case by simp
next
  case (Cons d ds)
  from head obtain r1 V1 t1 where
    res: "dependencyCycleExists M orc allNodes tvs f d (V, t) = Some (r1, (V1, t1))"
    by (metis prod.exhaust)
  show ?case
  proof (cases r1)
    case None
    with sound[OF res] have "V1 = V" by (simp add: searchSpec_def)
    with Cons.IH[of t1] res None show ?thesis by simp
  next
    case (Some err)
    with res show ?thesis by simp
  qed
qed

lemma search_total:
  assumes succ: "\<And>n ord. set (nodesInOrder ord
        (dependenciesForTaskUnit n (taskUnitOf tvs n) allNodes)) = E `` {n}"
  shows "finite (dom V) \<Longrightarrow> card {x. V x = Some False} < f \<Longrightarrow>
         \<exists>res. dependencyCycleExists M orc allNodes tvs f n (V, t) = Some res"
proof (induction f arbitrary: n V t)
  case 0
  then show ?case by simp
next
  case (Suc f)
  show ?case
  proof (cases "V n")
    case None
    then show ?thesis by simp
  next
    case (Some v)
    show ?thesis
    proof (cases v)
      case True
      with Some show ?thesis by simp
    next
      case False
      define V1 where "V1 = V(n \<mapsto> True)"
      have Vn: "V n = Some False" using Some False by simp
      have finU: "finite {x. V x = Some False}"
        by (rule finite_subset[OF _ Suc.prems(1)]) auto
      have U1: "{x. V1 x = Some False} = {x. V x = Some False} - {n}"
        by (auto simp: V1_def)
      have nU: "n \<in> {x. V x = Some False}" using Vn by simp
      have "card {x. V1 x = Some False} < card {x. V x = Some False}"
        unfolding U1 using finU nU by (meson card_Diff1_less)
      then have small: "card {x. V1 x = Some False} < f" using Suc.prems(2) by simp
      have fin1: "finite (dom V1)" using Suc.prems(1) by (simp add: V1_def)
      have "\<exists>res. cycleLoop M orc allNodes tvs f
          (nodesInOrder (orc t) (dependenciesForTaskUnit n (taskUnitOf tvs n) allNodes))
          (V1, Suc t) = Some res"
      proof (rule loop_total_step)
        fix d t1
        show "\<exists>res. dependencyCycleExists M orc allNodes tvs f d (V1, t1) = Some res"
          by (rule Suc.IH[OF fin1 small])
      next
        fix d t1 r V' t'
        assume "dependencyCycleExists M orc allNodes tvs f d (V1, t1) = Some (r, (V', t'))"
        then show "searchSpec M E {d} V1 r V'" by (rule search_sound[OF succ])
      qed
      then obtain lr st2 where "cycleLoop M orc allNodes tvs f
          (nodesInOrder (orc t) (dependenciesForTaskUnit n (taskUnitOf tvs n) allNodes))
          (V(n \<mapsto> True), Suc t) = Some (lr, st2)"
        unfolding V1_def by (metis prod.exhaust)
      then show ?thesis using Vn by (cases lr) simp_all
    qed
  qed
qed

lemma marksToward_dom:
  "marksToward E V V' m \<Longrightarrow> dom V' = dom V"
  unfolding marksToward_def dom_def by (metis option.distinct(1))

lemma searchCause_defect:
  assumes "searchCause M (depEdges tvs) V m err" and "dom V = fst ` set tvs"
    and "\<forall>x. V x = Some True \<longrightarrow> reachesDefect tvs x"
  shows "reachesDefect tvs m"
proof -
  from assms(1) consider "V m = None" | "V m = Some True" | "(m, m) \<in> (depEdges tvs)\<^sup>+"
    by (auto simp: searchCause_def)
  then show ?thesis
  proof cases
    case 1
    then have "m \<notin> fst ` set tvs" using assms(2) by (metis domIff)
    then show ?thesis unfolding reachesDefect_def by blast
  next
    case 2
    with assms(3) show ?thesis by simp
  next
    case 3
    then show ?thesis unfolding reachesDefect_def by blast
  qed
qed

lemma reachesDefect_back:
  "(x, m) \<in> (depEdges tvs)\<^sup>* \<Longrightarrow> reachesDefect tvs m \<Longrightarrow> reachesDefect tvs x"
  unfolding reachesDefect_def by (meson rtrancl_trans)

lemma cleanBelow_no_defect:
  assumes "cleanBelow (depEdges tvs) V n" and "dom V = fst ` set tvs"
  shows "\<not> reachesDefect tvs n"
proof
  assume "reachesDefect tvs n"
  then obtain m where nm: "(n, m) \<in> (depEdges tvs)\<^sup>*"
    and bad: "m \<notin> fst ` set tvs \<or> (m, m) \<in> (depEdges tvs)\<^sup>+"
    unfolding reachesDefect_def by blast
  from assms(1) nm have "V m = Some False" "(m, m) \<notin> (depEdges tvs)\<^sup>+"
    by (auto simp: cleanBelow_def)
  moreover from \<open>V m = Some False\<close> have "m \<in> fst ` set tvs" using assms(2) by (metis domI)
  ultimately show False using bad by simp
qed

section \<open>The requirement carried by an edge\<close>
















section \<open>The loop over the nodes\<close>

lemma unvisited_loop:
  "foldl (\<lambda>visited node. visited(node \<mapsto> False)) V ns x =
     (if x \<in> set ns then Some False else V x)"
  by (induction ns arbitrary: V) auto

lemma unvisited_apply: "unvisited ns x = (if x \<in> set ns then Some False else None)"
  by (simp add: unvisited_def unvisited_loop)

lemma graphLoop_findings:
  assumes succ: "\<And>n ord. set (nodesInOrder ord
        (dependenciesForTaskUnit n (taskUnitOf tvs n) allNodes)) = depEdges tvs `` {n}"
    and small: "card (fst ` set tvs) < fuel"
  shows "dom V = fst ` set tvs \<Longrightarrow> \<forall>x. V x = Some True \<longrightarrow> reachesDefect tvs x \<Longrightarrow>
         \<exists>errs. graphLoop M orc allNodes tvs fuel nodes (V, t) = Some errs \<and>
           list_all2 (\<lambda>n e. \<exists>err. e = dependencyFinding n err)
             (filter (reachesDefect tvs) nodes) errs"
proof (induction nodes arbitrary: V t)
  case Nil
  then show ?case by simp
next
  case (Cons n nodes)
  have fin: "finite (dom V)" using Cons.prems(1) by simp
  have "{x. V x = Some False} \<subseteq> fst ` set tvs" using Cons.prems(1) by auto
  then have "card {x. V x = Some False} \<le> card (fst ` set tvs)"
    by (simp add: card_mono)
  with small have "card {x. V x = Some False} < fuel" by simp
  from search_total[OF succ fin this] obtain r V' t' where
    res: "dependencyCycleExists M orc allNodes tvs fuel n (V, t) = Some (r, (V', t'))"
    by (metis prod.exhaust)
  from search_sound[OF succ res] have spec: "searchSpec M (depEdges tvs) {n} V r V'" .
  show ?case
  proof (cases r)
    case None
    with spec have V': "V' = V" and clean: "cleanBelow (depEdges tvs) V n"
      by (simp_all add: searchSpec_def)
    have nodef: "\<not> reachesDefect tvs n"
      by (rule cleanBelow_no_defect[OF clean Cons.prems(1)])
    from Cons.IH[OF Cons.prems, of t'] obtain errs where
      "graphLoop M orc allNodes tvs fuel nodes (V, t') = Some errs"
      "list_all2 (\<lambda>n e. \<exists>err. e = dependencyFinding n err)
         (filter (reachesDefect tvs) nodes) errs"
      by blast
    with res None V' nodef show ?thesis by simp
  next
    case (Some err)
    with spec obtain m where nm: "(n, m) \<in> (depEdges tvs)\<^sup>*"
      and cause: "searchCause M (depEdges tvs) V m err"
      and marks: "marksToward (depEdges tvs) V V' m"
      by (auto simp: searchSpec_def)
    have defm: "reachesDefect tvs m"
      by (rule searchCause_defect[OF cause Cons.prems])
    have defn: "reachesDefect tvs n" by (rule reachesDefect_back[OF nm defm])
    have dom': "dom V' = fst ` set tvs" using marksToward_dom[OF marks] Cons.prems(1) by simp
    have stale': "\<forall>x. V' x = Some True \<longrightarrow> reachesDefect tvs x"
    proof (intro allI impI)
      fix x assume x: "V' x = Some True"
      show "reachesDefect tvs x"
      proof (cases "V' x = V x")
        case True
        with x Cons.prems(2) show ?thesis by simp
      next
        case False
        with marks have "(x, m) \<in> (depEdges tvs)\<^sup>*" by (simp add: marksToward_def)
        then show ?thesis by (rule reachesDefect_back[OF _ defm])
      qed
    qed
    from Cons.IH[OF dom' stale', of t'] obtain errs where
      "graphLoop M orc allNodes tvs fuel nodes (V', t') = Some errs"
      "list_all2 (\<lambda>n e. \<exists>err. e = dependencyFinding n err)
         (filter (reachesDefect tvs) nodes) errs"
      by blast
    with res Some defn show ?thesis by auto
  qed
qed

lemma closed_reach:
  assumes "\<forall>a b. (a, b) \<in> E \<longrightarrow> b \<in> N" and "(n, m) \<in> E\<^sup>*" and "n \<in> N"
  shows "m \<in> N"
  using assms(2,3,1) by (induction rule: rtrancl_induct) auto

lemma graphLoop_first_cycle:
  assumes succ: "\<And>n ord. set (nodesInOrder ord
        (dependenciesForTaskUnit n (taskUnitOf tvs n) allNodes)) = depEdges tvs `` {n}"
    and small: "card (fst ` set tvs) < fuel"
    and domV: "dom V = fst ` set tvs"
    and clean: "\<forall>x \<in> fst ` set tvs. V x = Some False"
    and closed: "\<forall>a b. (a, b) \<in> depEdges tvs \<longrightarrow> b \<in> fst ` set tvs"
    and cyc: "(c, c) \<in> (depEdges tvs)\<^sup>+"
  shows "set nodes \<subseteq> fst ` set tvs \<Longrightarrow> c \<in> set nodes \<Longrightarrow>
         \<exists>errs. graphLoop M orc allNodes tvs fuel nodes (V, t) = Some errs \<and>
           (\<exists>e \<in> set errs. \<exists>n m. e = dependencyFinding n (cycleError M m) \<and>
              (m, m) \<in> (depEdges tvs)\<^sup>+)"
proof (induction nodes arbitrary: t)
  case Nil
  then show ?case by simp
next
  case (Cons n nodes)
  have nostale: "\<forall>x. V x = Some True \<longrightarrow> reachesDefect tvs x"
    using clean domV by (metis domI option.inject)
  have fin: "finite (dom V)" using domV by simp
  have "{x. V x = Some False} \<subseteq> fst ` set tvs" using domV by auto
  then have "card {x. V x = Some False} \<le> card (fst ` set tvs)"
    by (simp add: card_mono)
  with small have "card {x. V x = Some False} < fuel" by simp
  from search_total[OF succ fin this] obtain r V' t' where
    res: "dependencyCycleExists M orc allNodes tvs fuel n (V, t) = Some (r, (V', t'))"
    by (metis prod.exhaust)
  from search_sound[OF succ res] have spec: "searchSpec M (depEdges tvs) {n} V r V'" .
  show ?case
  proof (cases r)
    case None
    with spec have V': "V' = V" and below: "cleanBelow (depEdges tvs) V n"
      by (simp_all add: searchSpec_def)
    have "(n, n) \<notin> (depEdges tvs)\<^sup>+" using below by (auto simp: cleanBelow_def)
    with cyc have "c \<noteq> n" by auto
    with Cons.prems have "set nodes \<subseteq> fst ` set tvs" "c \<in> set nodes" by auto
    from Cons.IH[OF this, of t'] obtain errs where
      errs: "graphLoop M orc allNodes tvs fuel nodes (V, t') = Some errs"
      and found: "\<exists>e \<in> set errs. \<exists>n m. e = dependencyFinding n (cycleError M m) \<and>
              (m, m) \<in> (depEdges tvs)\<^sup>+"
      by blast
    have "graphLoop M orc allNodes tvs fuel (n # nodes) (V, t) = Some errs"
      using res None V' errs by simp
    with found show ?thesis by blast
  next
    case (Some err)
    with spec obtain m where nm: "(n, m) \<in> (depEdges tvs)\<^sup>*"
      and cause: "searchCause M (depEdges tvs) V m err"
      and marks: "marksToward (depEdges tvs) V V' m"
      by (auto simp: searchSpec_def)
    have "n \<in> fst ` set tvs" using Cons.prems(1) by simp
    from closed_reach[OF closed nm this] clean have "V m = Some False" by blast
    with cause have err: "err = cycleError M m" and mm: "(m, m) \<in> (depEdges tvs)\<^sup>+"
      by (auto simp: searchCause_def)
    have defm: "reachesDefect tvs m" using mm unfolding reachesDefect_def by blast
    have dom': "dom V' = fst ` set tvs" using marksToward_dom[OF marks] domV by simp
    have stale': "\<forall>x. V' x = Some True \<longrightarrow> reachesDefect tvs x"
    proof (intro allI impI)
      fix x assume x: "V' x = Some True"
      show "reachesDefect tvs x"
      proof (cases "V' x = V x")
        case True
        with x nostale show ?thesis by simp
      next
        case False
        with marks have "(x, m) \<in> (depEdges tvs)\<^sup>*" by (simp add: marksToward_def)
        then show ?thesis by (rule reachesDefect_back[OF _ defm])
      qed
    qed
    from graphLoop_findings[OF succ small dom' stale', of M orc nodes t'] obtain errs where
      errs: "graphLoop M orc allNodes tvs fuel nodes (V', t') = Some errs" by blast
    have "graphLoop M orc allNodes tvs fuel (n # nodes) (V, t) =
        Some (dependencyFinding n (cycleError M m) # errs)"
      using res Some err errs by simp
    with mm show ?thesis by fastforce
  qed
qed

section \<open>Cycles are reported\<close>

lemma targetsPresent_closed:
  assumes "targetsPresent tvs"
  shows "\<forall>a b. (a, b) \<in> depEdges tvs \<longrightarrow> b \<in> fst ` set tvs"
proof (intro allI impI)
  fix a b assume "(a, b) \<in> depEdges tvs"
  then obtain taskUnit where tu: "map_of tvs a = Some taskUnit"
    and b: "b \<in> set (taskUnitTargets a taskUnit (map fst tvs))"
    by (auto simp: depEdges_def dependsOn_def split: option.splits)
  from tu have "(a, taskUnit) \<in> set tvs" by (rule map_of_SomeD)
  with assms b show "b \<in> fst ` set tvs"
    unfolding targetsPresent_def list_all_iff by fastforce
qed

lemma depEdges_source:
  "(a, b) \<in> depEdges tvs \<Longrightarrow> a \<in> fst ` set tvs"
  by (auto simp: depEdges_def dependsOn_def split: option.splits dest: map_of_SomeD
      intro: rev_image_eqI)

lemma onCycle_depEdges: "onCycle tvs n \<longleftrightarrow> (n, n) \<in> (depEdges tvs)\<^sup>+"
  by (simp add: onCycle_def depEdges_def)

lemma keys_rangeMap: "set (map fst (rangeMap ord tvs)) = fst ` set tvs"
  by (simp add: set_rangeMap)

lemma checkDependencyGraphOn_cycle:
  assumes cyc: "onCycle tvs c" and present: "targetsPresent tvs" and fuel: "length tvs < fuel"
  shows "\<exists>errs. checkDependencyGraphOn M orc fuel tvs = Some errs \<and>
           (\<exists>e \<in> set errs. \<exists>n m. e = dependencyFinding n (cycleError M m) \<and> onCycle tvs m)"
proof -
  define allNodes where "allNodes = map fst (rangeMap (orc 0) tvs)"
  have all: "set allNodes = fst ` set tvs" unfolding allNodes_def by (rule keys_rangeMap)
  have succ: "\<And>n ord. set (nodesInOrder ord
        (dependenciesForTaskUnit n (taskUnitOf tvs n) allNodes)) = depEdges tvs `` {n}"
    by (rule successors_depEdges[OF all])
  have "card (fst ` set tvs) \<le> length tvs"
    by (metis card_length length_map set_map)
  with fuel have small: "card (fst ` set tvs) < fuel" by simp
  have domV: "dom (unvisited allNodes) = fst ` set tvs"
    using all by (auto simp: unvisited_apply dom_def)
  have clean: "\<forall>x \<in> fst ` set tvs. unvisited allNodes x = Some False"
    using all by (simp add: unvisited_apply)
  have cc: "(c, c) \<in> (depEdges tvs)\<^sup>+" using cyc by (simp add: onCycle_depEdges)
  then obtain d where "(c, d) \<in> depEdges tvs" by (meson tranclD)
  then have "c \<in> fst ` set tvs" by (rule depEdges_source)
  then have cin: "c \<in> set (map fst (rangeMap (orc 1) tvs))" by (simp only: keys_rangeMap)
  have sub: "set (map fst (rangeMap (orc 1) tvs)) \<subseteq> fst ` set tvs"
    by (simp only: keys_rangeMap)
  from graphLoop_first_cycle[OF succ small domV clean targetsPresent_closed[OF present] cc
      sub cin, of M orc 2]
  show ?thesis
    unfolding checkDependencyGraphOn_def Let_def allNodes_def onCycle_depEdges by simp
qed

lemma dependencyFinding_names:
  "Level (dependencyFinding n (cycleError M m)) = Error \<and>
   sublist (TVPairString M m) (Message (dependencyFinding n (cycleError M m)))"
proof -
  have "Message (dependencyFinding n (cycleError M m)) =
      (''dependency error for '' @ quoted (TaskName n) @ '' task: '' @ ''dependency '') @
      TVPairString M m @ '' is part of a dependency cycle''"
    by (simp add: dependencyFinding_def cycleError_def)
  then have "sublist (TVPairString M m) (Message (dependencyFinding n (cycleError M m)))"
    by (metis sublist_appendI)
  then show ?thesis by (simp add: dependencyFinding_def)
qed

text \<open>
  C1. When the dependency graph of a project has a node on a cycle and every pair that a
  dependency expands to is a node of the graph, \<^verbatim>\<open>checkDependencyGraph\<close> returns (a
  depth bound above the number of nodes is never reached), and one of its findings is
  at level \<open>Error\<close> with a message that holds the name of a node on a cycle. This holds
  for every order in which the maps are walked and for every way of printing a pair.
\<close>

theorem checkDependencyGraph_reports_cycle:
  assumes "onCycle (tvToTaskUnit M project) c"
    and "targetsPresent (tvToTaskUnit M project)"
    and "length (tvToTaskUnit M project) < fuel"
  shows "\<exists>errs. checkDependencyGraph M orc fuel project = Some errs \<and>
           (\<exists>e \<in> set errs. Level e = Error \<and>
              (\<exists>n. onCycle (tvToTaskUnit M project) n \<and>
                   sublist (TVPairString M n) (Message e)))"
proof -
  from checkDependencyGraphOn_cycle[OF assms, of M orc] obtain errs n m where
    "checkDependencyGraphOn M orc fuel (tvToTaskUnit M project) = Some errs"
    "dependencyFinding n (cycleError M m) \<in> set errs" "onCycle (tvToTaskUnit M project) m"
    by blast
  then show ?thesis
    unfolding checkDependencyGraph_def using dependencyFinding_names[of n M m] by blast
qed

theorem checkDependencyGraph_reports_cycle_witness:
  "onCycle (tvToTaskUnit exampleMethods twoTaskCycle) nodeA \<and>
   targetsPresent (tvToTaskUnit exampleMethods twoTaskCycle) \<and>
   length (tvToTaskUnit exampleMethods twoTaskCycle) < 3 \<and>
   (\<exists>errs. checkDependencyGraph exampleMethods inOrder 3 twoTaskCycle = Some errs \<and>
      (\<exists>e \<in> set errs. Level e = Error \<and>
         (\<exists>n. onCycle (tvToTaskUnit exampleMethods twoTaskCycle) n \<and>
              sublist (TVPairString exampleMethods n) (Message e))))"
proof -
  have ab: "dependsOn (tvToTaskUnit exampleMethods twoTaskCycle) nodeA nodeB" by code_simp
  have ba: "dependsOn (tvToTaskUnit exampleMethods twoTaskCycle) nodeB nodeA" by code_simp
  have "(nodeA, nodeB) \<in> {(a, b). dependsOn (tvToTaskUnit exampleMethods twoTaskCycle) a b}\<^sup>+"
    using ab by (intro r_into_trancl) simp
  moreover have "(nodeB, nodeA) \<in> {(a, b). dependsOn (tvToTaskUnit exampleMethods twoTaskCycle) a b}"
    using ba by simp
  ultimately have h1: "onCycle (tvToTaskUnit exampleMethods twoTaskCycle) nodeA"
    unfolding onCycle_def by (rule trancl_into_trancl)
  have h2: "targetsPresent (tvToTaskUnit exampleMethods twoTaskCycle)" by code_simp
  have h3: "length (tvToTaskUnit exampleMethods twoTaskCycle) < 3" by code_simp
  have c: "\<exists>errs. checkDependencyGraph exampleMethods inOrder 3 twoTaskCycle = Some errs \<and>
      (\<exists>e \<in> set errs. Level e = Error \<and>
         (\<exists>n. onCycle (tvToTaskUnit exampleMethods twoTaskCycle) n \<and>
              sublist (TVPairString exampleMethods n) (Message e)))"
    by (rule checkDependencyGraph_reports_cycle[OF h1 h2 h3])
  show ?thesis by (intro conjI h1 h2 h3 c)
qed

section \<open>Two calls on one project\<close>

lemma reportsOn_dependencyFinding: "reportsOn n (dependencyFinding n err)"
  by (simp add: reportsOn_def dependencyFinding_def)

lemma checkDependencyGraphOn_findings:
  assumes fuel: "length tvs < fuel"
  shows "\<exists>errs. checkDependencyGraphOn M orc fuel tvs = Some errs \<and>
           list_all2 reportsOn
             (filter (reachesDefect tvs) (map fst (rangeMap (orc 1) tvs))) errs"
proof -
  define allNodes where "allNodes = map fst (rangeMap (orc 0) tvs)"
  have all: "set allNodes = fst ` set tvs" unfolding allNodes_def by (rule keys_rangeMap)
  have succ: "\<And>n ord. set (nodesInOrder ord
        (dependenciesForTaskUnit n (taskUnitOf tvs n) allNodes)) = depEdges tvs `` {n}"
    by (rule successors_depEdges[OF all])
  have "card (fst ` set tvs) \<le> length tvs"
    by (metis card_length length_map set_map)
  with fuel have small: "card (fst ` set tvs) < fuel" by simp
  have domV: "dom (unvisited allNodes) = fst ` set tvs"
    using all by (auto simp: unvisited_apply dom_def)
  have nostale: "\<forall>x. unvisited allNodes x = Some True \<longrightarrow> reachesDefect tvs x"
    by (simp add: unvisited_apply)
  from graphLoop_findings[OF succ small domV nostale, of M orc "map fst (rangeMap (orc 1) tvs)" 2]
  obtain errs where
    run: "graphLoop M orc allNodes tvs fuel (map fst (rangeMap (orc 1) tvs))
            (unvisited allNodes, 2) = Some errs"
    and each: "list_all2 (\<lambda>n e. \<exists>err. e = dependencyFinding n err)
             (filter (reachesDefect tvs) (map fst (rangeMap (orc 1) tvs))) errs"
    by blast
  have "list_all2 reportsOn (filter (reachesDefect tvs) (map fst (rangeMap (orc 1) tvs))) errs"
    by (rule list_all2_mono[OF each]) (auto simp: reportsOn_dependencyFinding)
  with run show ?thesis
    unfolding checkDependencyGraphOn_def Let_def allNodes_def by simp
qed

lemma reportsOn_levels:
  "list_all2 reportsOn ns errs \<Longrightarrow> map Level errs = replicate (length ns) Error"
  by (induction ns errs rule: list_all2_induct) (auto simp: reportsOn_def)

lemma defect_count:
  "length (filter P (map fst (rangeMap ord1 tvs))) =
   length (filter P (map fst (rangeMap ord2 tvs)))"
proof -
  have "\<And>ord. mset (filter P (map fst (rangeMap ord tvs))) =
      filter_mset P (image_mset fst (mset tvs))"
    by (metis mset_filter mset_map mset_rangeMap)
  then have "mset (filter P (map fst (rangeMap ord1 tvs))) =
      mset (filter P (map fst (rangeMap ord2 tvs)))" by simp
  then show ?thesis by (rule mset_eq_length)
qed

text \<open>
  C5, as the code has it. Two calls of \<^verbatim>\<open>checkDependencyGraph\<close> on one project, each
  with its own iteration orders of the maps, both return, with the same number of
  findings, all at level \<open>Error\<close>: each call reports once on every node that reaches a
  defect (a cycle, or a dependency that is no node), in the order in which its second
  loop meets the nodes. Which node a message names is not fixed.
\<close>

theorem checkDependencyGraph_two_calls:
  assumes "length (tvToTaskUnit M project) < fuel"
  shows "\<exists>errs1 errs2.
           checkDependencyGraph M orc1 fuel project = Some errs1 \<and>
           checkDependencyGraph M orc2 fuel project = Some errs2 \<and>
           length errs1 = length errs2 \<and>
           map Level errs1 = map Level errs2 \<and>
           list_all2 reportsOn
             (filter (reachesDefect (tvToTaskUnit M project))
                (map fst (rangeMap (orc1 1) (tvToTaskUnit M project)))) errs1 \<and>
           list_all2 reportsOn
             (filter (reachesDefect (tvToTaskUnit M project))
                (map fst (rangeMap (orc2 1) (tvToTaskUnit M project)))) errs2"
proof -
  define tvs where "tvs = tvToTaskUnit M project"
  from checkDependencyGraphOn_findings[OF assms, of M orc1] obtain errs1 where
    r1: "checkDependencyGraph M orc1 fuel project = Some errs1"
    and f1: "list_all2 reportsOn (filter (reachesDefect tvs) (map fst (rangeMap (orc1 1) tvs))) errs1"
    unfolding checkDependencyGraph_def tvs_def by blast
  from checkDependencyGraphOn_findings[OF assms, of M orc2] obtain errs2 where
    r2: "checkDependencyGraph M orc2 fuel project = Some errs2"
    and f2: "list_all2 reportsOn (filter (reachesDefect tvs) (map fst (rangeMap (orc2 1) tvs))) errs2"
    unfolding checkDependencyGraph_def tvs_def by blast
  have len: "length errs1 = length errs2"
    using list_all2_lengthD[OF f1] list_all2_lengthD[OF f2]
      defect_count[of "reachesDefect tvs" "orc1 1" tvs "orc2 1"] by simp
  have "map Level errs1 = map Level errs2"
    using reportsOn_levels[OF f1] reportsOn_levels[OF f2]
      list_all2_lengthD[OF f1] list_all2_lengthD[OF f2] len by simp
  with r1 r2 f1 f2 len show ?thesis unfolding tvs_def by blast
qed

theorem checkDependencyGraph_two_calls_witness:
  "length (tvToTaskUnit exampleMethods chainIntoCycle) < 4 \<and>
   (\<exists>errs1 errs2.
      checkDependencyGraph exampleMethods inOrder 4 chainIntoCycle = Some errs1 \<and>
      checkDependencyGraph exampleMethods nodesSwapped 4 chainIntoCycle = Some errs2 \<and>
      length errs1 = length errs2 \<and>
      map Level errs1 = map Level errs2)"
proof -
  have h: "length (tvToTaskUnit exampleMethods chainIntoCycle) < 4" by code_simp
  from checkDependencyGraph_two_calls[OF h, of inOrder nodesSwapped] obtain errs1 errs2 where
    "checkDependencyGraph exampleMethods inOrder 4 chainIntoCycle = Some errs1"
    "checkDependencyGraph exampleMethods nodesSwapped 4 chainIntoCycle = Some errs2"
    "length errs1 = length errs2" "map Level errs1 = map Level errs2"
    by blast
  then have "\<exists>errs1 errs2.
      checkDependencyGraph exampleMethods inOrder 4 chainIntoCycle = Some errs1 \<and>
      checkDependencyGraph exampleMethods nodesSwapped 4 chainIntoCycle = Some errs2 \<and>
      length errs1 = length errs2 \<and>
      map Level errs1 = map Level errs2" by blast
  with h show ?thesis by (intro conjI)
qed

text \<open>
  C5 as stated fails on \<open>chainIntoCycle\<close>: walking the nodes in the order \<open>a, p, x\<close>
  and in the order \<open>p, a, x\<close> gives findings in different orders and with different
  messages.
\<close>

theorem checkDependencyGraph_order_counterexample:
  "checkDependencyGraph exampleMethods inOrder 4 chainIntoCycle =
     Some [\<lparr>Level = Error, Message =
             ''dependency error for 'a' task: dependency v1/x is part of a dependency cycle''\<rparr>,
           \<lparr>Level = Error, Message =
             ''dependency error for 'p' task: dependency v1/p is part of a dependency cycle''\<rparr>,
           \<lparr>Level = Error, Message =
             ''dependency error for 'x' task: dependency v1/x is part of a dependency cycle''\<rparr>] \<and>
   checkDependencyGraph exampleMethods nodesSwapped 4 chainIntoCycle =
     Some [\<lparr>Level = Error, Message =
             ''dependency error for 'p' task: dependency v1/x is part of a dependency cycle''\<rparr>,
           \<lparr>Level = Error, Message =
             ''dependency error for 'a' task: dependency v1/p is part of a dependency cycle''\<rparr>,
           \<lparr>Level = Error, Message =
             ''dependency error for 'x' task: dependency v1/x is part of a dependency cycle''\<rparr>] \<and>
   checkDependencyGraph exampleMethods inOrder 4 chainIntoCycle \<noteq>
   checkDependencyGraph exampleMethods nodesSwapped 4 chainIntoCycle"
  by code_simp

end
